theory Spec2Isabelle
  imports Complex_Main "HOL-Library.Word" "HOL-Library.Multiset"
begin

section \<open>Numbers, nodes and errors\<close>

text \<open>
  The result of a compare function is a JavaScript number. The class only ever tests it
  against zero (\<open>=== 0\<close>, \<open>< 0\<close>, \<open>> 0\<close>) or hands it to \<open>Array.prototype.sort\<close>, which
  looks at the sign only, so a numeric result is kept as an integer of the same sign and
  \<open>NaN\<close> is kept apart.
\<close>

datatype number = Num int | NaN

text \<open>\<open>class SANode<T> { obj: T; index: number }\<close>\<close>

record 'a SANode =
  obj :: 'a
  index :: int

text \<open>\<open>class FindResult<T> { obj: T; index: number }\<close>, the payload first.\<close>

datatype 'a FindResult = FindResult 'a int

text \<open>
  What the methods throw. \<open>OutOfBounds i hi\<close> is the \<open>RangeError\<close> built by \<open>oob\<close>, whose
  message names the index \<open>i\<close> and the upper bound \<open>hi = length - 1\<close>; \<open>TypeError\<close> is what
  the runtime raises when a property is read from \<open>undefined\<close>.
\<close>

datatype error =
    Error string
  | RangeError string
  | OutOfBounds int int
  | TypeError

text \<open>
  The fields of \<open>SortedArray\<close>. The field \<open>sorted\<close> is called \<open>sorted_flag\<close> here. The compare
  function given to the constructor (\<open>originalCompareFn\<close>) is never reassigned, so it is
  passed to every operation as its first argument, written \<open>ocf\<close>.
\<close>

record 'a SortedArray =
  array :: "'a SANode list"
  sorted_flag :: bool
  sorting :: bool
  insertionCounter :: int

definition MAX_SAFE_INTEGER :: int where
  "MAX_SAFE_INTEGER = 9007199254740991"

definition MIN_SAFE_INTEGER :: int where
  "MIN_SAFE_INTEGER = - 9007199254740991"

text \<open>
  An array of the runtime holds at most \<open>2^32 - 1\<close> elements (the comment in \<open>wrapOne\<close>
  relies on it); \<open>push\<close> on a full array raises a \<open>RangeError\<close>.
\<close>

definition MAX_ARRAY_LENGTH :: nat where
  "MAX_ARRAY_LENGTH = 4294967295"

definition Array_push :: "'b list \<Rightarrow> 'b \<Rightarrow> error + 'b list" where
  "Array_push xs x =
     (if length xs < MAX_ARRAY_LENGTH then Inr (xs @ [x])
      else Inl (RangeError ''Invalid array length''))"

section \<open>Sorting\<close>

text \<open>
  \<open>Array.prototype.sort(comparefn)\<close> belongs to the runtime. The language standard reads
  a \<open>NaN\<close> from the compare function as \<open>+0\<close> (\<open>SortCompare\<close>) and fixes the result only
  for a consistent compare function, for which every algorithm returns the same order
  up to elements that compare equal. It is modelled as a stable insertion sort.
\<close>

definition SortCompare :: "('b \<Rightarrow> 'b \<Rightarrow> number) \<Rightarrow> 'b \<Rightarrow> 'b \<Rightarrow> int" where
  "SortCompare comparefn x y = (case comparefn x y of NaN \<Rightarrow> 0 | Num v \<Rightarrow> v)"

fun sort_insert :: "('b \<Rightarrow> 'b \<Rightarrow> number) \<Rightarrow> 'b \<Rightarrow> 'b list \<Rightarrow> 'b list" where
  "sort_insert comparefn x [] = [x]"
| "sort_insert comparefn x (y # ys) =
     (if SortCompare comparefn x y \<le> 0 then x # y # ys
      else y # sort_insert comparefn x ys)"

definition Array_sort :: "('b \<Rightarrow> 'b \<Rightarrow> number) \<Rightarrow> 'b list \<Rightarrow> 'b list" where
  "Array_sort comparefn xs = foldr (sort_insert comparefn) xs []"

text \<open>
  \<open>this.compareFn\<close>, built in the constructor: the payload comparison, and the difference of
  the insertion indices when that is zero.
\<close>

definition compareFn :: "('a \<Rightarrow> 'a \<Rightarrow> number) \<Rightarrow> 'a SANode \<Rightarrow> 'a SANode \<Rightarrow> number" where
  "compareFn ocf a b =
     (case ocf (obj a) (obj b) of
        NaN \<Rightarrow> NaN
      | Num c \<Rightarrow> if c = 0 then Num (index a - index b) else Num c)"

text \<open>\<open>SortedArray._sort\<close>\<close>

definition sort_private :: "('a \<Rightarrow> 'a \<Rightarrow> number) \<Rightarrow> 'a SortedArray \<Rightarrow> 'a SortedArray" where
  "sort_private ocf s =
     (let s1 = (if \<not> sorted_flag s \<and> \<not> sorting s
                then s\<lparr>array := Array_sort (compareFn ocf) (array s)\<rparr>
                else s)
      in s1\<lparr>sorted_flag := True\<rparr>)"

text \<open>\<open>SortedArray.unwrap\<close>\<close>

definition unwrap :: "'a SANode list \<Rightarrow> 'a list" where
  "unwrap items = map obj items"

section \<open>The insertion counter\<close>

text \<open>
  \<open>SortedArray.reduceInsertionOrders\<close>. The copy made by \<open>slice()\<close> holds the same node
  objects as \<open>this.array\<close>, so the assignment to \<open>element.index\<close> changes the nodes of the
  array itself. A node is named by its position in \<open>this.array\<close>: the copy is the list of
  positions, sorted by the index found there, and the loop writes the new index at each
  position in that order.
\<close>

definition renumber_step :: "nat \<Rightarrow> 'a SortedArray \<Rightarrow> 'a SortedArray" where
  "renumber_step p s =
     s\<lparr>array := (array s)[p := (array s ! p)\<lparr>index := insertionCounter s\<rparr>],
       insertionCounter := insertionCounter s + 1\<rparr>"

definition reduceInsertionOrders :: "'a SortedArray \<Rightarrow> 'a SortedArray" where
  "reduceInsertionOrders s =
     (let copy = Array_sort (\<lambda>a b. Num (index (array s ! a) - index (array s ! b)))
                   [0 ..< length (array s)]
      in fold renumber_step copy (s\<lparr>insertionCounter := MIN_SAFE_INTEGER\<rparr>))"

text \<open>\<open>SortedArray.wrapOne(obj, emulateEndInsertion?, emulateEndInsertionIncrement?)\<close>\<close>

definition wrapOne ::
  "'a SortedArray \<Rightarrow> 'a \<Rightarrow> bool \<Rightarrow> int option \<Rightarrow> 'a SANode \<times> 'a SortedArray" where
  "wrapOne s ob emulateEndInsertion emulateEndInsertionIncrement =
     (let index0 = insertionCounter s +
                     (case emulateEndInsertionIncrement of None \<Rightarrow> 0 | Some k \<Rightarrow> k)
      in if \<not> emulateEndInsertion then
           (let s1 = s\<lparr>insertionCounter := insertionCounter s + 1\<rparr>
            in if insertionCounter s1 \<ge> MAX_SAFE_INTEGER then
                 (let s2 = reduceInsertionOrders s1
                  in (\<lparr>obj = ob, index = insertionCounter s2\<rparr>,
                      s2\<lparr>insertionCounter := insertionCounter s2 + 1\<rparr>))
               else (\<lparr>obj = ob, index = index0\<rparr>, s1))
         else (\<lparr>obj = ob, index = index0\<rparr>, s))"

text \<open>
  \<open>SortedArray.wrap\<close>: \<open>objs.map((obj) => this.wrapOne(obj))\<close>, the state threaded from left
  to right.
\<close>

fun wrap :: "'a SortedArray \<Rightarrow> 'a list \<Rightarrow> 'a SANode list \<times> 'a SortedArray" where
  "wrap s [] = ([], s)"
| "wrap s (ob # objs) =
     (let (node, s1) = wrapOne s ob False None;
          (nodes, s2) = wrap s1 objs
      in (node # nodes, s2))"

text \<open>
  The constructor. \<open>this.array\<close> is assigned only after \<open>wrap\<close> has returned, so \<open>wrap\<close> runs
  on a state without nodes; the counter starts at \<open>MIN_SAFE_INTEGER\<close> and \<open>elements\<close> is an
  array of the runtime, so the renumbering branch of \<open>wrapOne\<close> is out of reach there.
\<close>

definition constructor :: "'a list option \<Rightarrow> 'a SortedArray" where
  "constructor elements =
     (let s0 = \<lparr>array = [], sorted_flag = False, sorting = False,
                insertionCounter = MIN_SAFE_INTEGER\<rparr>
      in case elements of
           Some els \<Rightarrow> (let (nodes, s1) = wrap s0 els in s1\<lparr>array := nodes\<rparr>)
         | None \<Rightarrow> s0)"

section \<open>Reading and adding\<close>

text \<open>\<open>xs[i]\<close> on an array of the runtime: \<open>undefined\<close> (here \<open>None\<close>) outside \<open>0 .. length - 1\<close>.\<close>

definition Array_get :: "'b list \<Rightarrow> int \<Rightarrow> 'b option" where
  "Array_get xs i = (if 0 \<le> i \<and> i < int (length xs) then Some (xs ! nat i) else None)"

text \<open>\<open>SortedArray.oob\<close> and \<open>SortedArray.uo\<close>\<close>

definition oob :: "'a SortedArray \<Rightarrow> int \<Rightarrow> error" where
  "oob s i = OutOfBounds i (int (length (array s)) - 1)"

definition uo :: "string \<Rightarrow> error" where
  "uo operation = Error (operation @ '' is an invalid operation on a sorted array'')"

text \<open>
  Every method returns its result, or the error it throws, together with the state it
  leaves behind.
\<close>

definition get ::
  "('a \<Rightarrow> 'a \<Rightarrow> number) \<Rightarrow> 'a SortedArray \<Rightarrow> int \<Rightarrow> (error + 'a) \<times> 'a SortedArray" where
  "get ocf s i =
     (if i < 0 \<or> i \<ge> int (length (array s)) then (Inl (oob s i), s)
      else (let s1 = sort_private ocf s
            in case Array_get (array s1) i of
                 None \<Rightarrow> (Inl TypeError, s1)
               | Some node \<Rightarrow> (Inr (obj node), s1)))"

text \<open>The loop of \<open>addAll\<close>: \<open>for (const item of items) { this.array.push(this.wrapOne(item)); }\<close>\<close>

fun addAll_loop :: "'a SortedArray \<Rightarrow> 'a list \<Rightarrow> error option \<times> 'a SortedArray" where
  "addAll_loop s [] = (None, s)"
| "addAll_loop s (item # items) =
     (let (node, s1) = wrapOne s item False None
      in case Array_push (array s1) node of
           Inl e \<Rightarrow> (Some e, s1)
         | Inr arr \<Rightarrow> addAll_loop (s1\<lparr>array := arr\<rparr>) items)"

definition addAll :: "'a SortedArray \<Rightarrow> 'a list \<Rightarrow> (error + nat) \<times> 'a SortedArray" where
  "addAll s items =
     (let (r, s1) = addAll_loop (s\<lparr>sorted_flag := False\<rparr>) items
      in case r of
           Some e \<Rightarrow> (Inl e, s1)
         | None \<Rightarrow> (Inr (length (array s1)), s1))"

definition toArray :: "('a \<Rightarrow> 'a \<Rightarrow> number) \<Rightarrow> 'a SortedArray \<Rightarrow> 'a list \<times> 'a SortedArray" where
  "toArray ocf s = (let s1 = sort_private ocf s in (unwrap (array s1), s1))"

text \<open>
  \<open>Array.prototype.slice(start, end)\<close> of the runtime: a negative bound counts from the
  end, both bounds are clamped to \<open>0 .. length\<close>.
\<close>

definition relative_index :: "nat \<Rightarrow> int \<Rightarrow> nat" where
  "relative_index len i = (if i < 0 then nat (max (int len + i) 0) else min (nat i) len)"

definition Array_slice :: "'b list \<Rightarrow> int option \<Rightarrow> int option \<Rightarrow> 'b list" where
  "Array_slice xs start end =
     (let k = (case start of None \<Rightarrow> 0 | Some i \<Rightarrow> relative_index (length xs) i);
          final = (case end of None \<Rightarrow> length xs | Some i \<Rightarrow> relative_index (length xs) i)
      in take (final - k) (drop k xs))"

definition slice_method ::
  "('a \<Rightarrow> 'a \<Rightarrow> number) \<Rightarrow> 'a SortedArray \<Rightarrow> int option \<Rightarrow> int option \<Rightarrow> 'a list \<times> 'a SortedArray" where
  "slice_method ocf s start end =
     (let s1 = sort_private ocf s in (unwrap (Array_slice (array s1) start end), s1))"

text \<open>
  The generator that \<open>[Symbol.iterator]()\<close> and \<open>values()\<close> return. \<open>this._sort()\<close> runs when
  the generator is made. Its body, \<open>for (const item of this.array) { yield item.obj; }\<close>,
  runs only as \<open>next()\<close> is called: each call reads \<open>this.array\<close> as it is at that
  moment, at the position the generator has reached. \<open>None\<close> from \<open>Generator_next\<close> is
  \<open>{ done: true }\<close>, and a generator that has found the end stays finished.
\<close>

record Generator =
  position :: nat
  finished :: bool

definition values_iter ::
  "('a \<Rightarrow> 'a \<Rightarrow> number) \<Rightarrow> 'a SortedArray \<Rightarrow> Generator \<times> 'a SortedArray" where
  "values_iter ocf s = (\<lparr>position = 0, finished = False\<rparr>, sort_private ocf s)"

definition Generator_next :: "Generator \<Rightarrow> 'a SortedArray \<Rightarrow> (error + 'a option) \<times> Generator" where
  "Generator_next g s =
     (if finished g \<or> position g \<ge> length (array s) then (Inr None, g\<lparr>finished := True\<rparr>)
      else (case Array_get (array s) (int (position g)) of
              None \<Rightarrow> (Inl TypeError, g\<lparr>finished := True\<rparr>)
            | Some item \<Rightarrow> (Inr (Some (obj item)), g\<lparr>position := position g + 1\<rparr>)))"

text \<open>
  Reading a generator to its end, as \<open>[...it]\<close> or a \<open>for...of\<close> loop does, on a collection
  that no other call touches meanwhile.
\<close>

function Generator_rest :: "Generator \<Rightarrow> 'a SortedArray \<Rightarrow> error + 'a list" where
  "Generator_rest g s =
     (case Generator_next g s of
        (Inl e, g') \<Rightarrow> Inl e
      | (Inr None, g') \<Rightarrow> Inr []
      | (Inr (Some v), g') \<Rightarrow> map_sum id (Cons v) (Generator_rest g' s))"
  by pat_completeness auto
termination
  by (relation "measure (\<lambda>(g, s). length (array s) - position g)")
     (auto simp: Generator_next_def split: if_splits option.splits)

section \<open>Searching\<close>

text \<open>
  The loop of \<open>search\<close>, entered with \<open>cur = Math.floor(max / 2)\<close>. It stops with the index
  and \<open>found\<close>, or with the error thrown for a \<open>NaN\<close>; a probe outside the array reads
  \<open>.obj\<close> of \<open>undefined\<close>.
\<close>

function search_loop ::
  "('a \<Rightarrow> 'a \<Rightarrow> number) \<Rightarrow> 'a \<Rightarrow> 'a SANode list \<Rightarrow> int \<Rightarrow> int \<Rightarrow> int \<Rightarrow> error + int \<times> bool" where
  "search_loop ocf ob arr mn mx cur =
     (if mx \<ge> mn then
        (case Array_get arr cur of
           None \<Rightarrow> Inl TypeError
         | Some node \<Rightarrow>
             (case ocf ob (obj node) of
                NaN \<Rightarrow> Inl (Error ''Compare function cannot return NaN'')
              | Num compare \<Rightarrow>
                  if compare = 0 then Inr (cur, True)
                  else if compare < 0 then
                    search_loop ocf ob arr mn (cur - 1) ((mn + (cur - 1)) div 2)
                  else
                    search_loop ocf ob arr (cur + 1) mx ((cur + 1 + mx) div 2)))
      else Inr (cur, False))"
  by pat_completeness auto
termination
  by (relation "measures [\<lambda>(ocf, ob, arr, mn, mx, cur).
                             if mx < mn then 0 else if mn \<le> cur \<and> cur \<le> mx then 1 else 2,
                          \<lambda>(ocf, ob, arr, mn, mx, cur). nat (mx - mn + 1)]")
     (auto split: if_splits)

text \<open>
  \<open>SortedArray.search(obj, min?, max?)\<close>. The arguments are integers, so of the checks on
  \<open>min\<close> and \<open>max\<close> the sign and the upper bound remain.
\<close>

definition search ::
  "('a \<Rightarrow> 'a \<Rightarrow> number) \<Rightarrow> 'a SortedArray \<Rightarrow> 'a \<Rightarrow> int option \<Rightarrow> int option
     \<Rightarrow> (error + int \<times> bool) \<times> 'a SortedArray" where
  "search ocf s ob mn mx =
     (if (case mn of Some m \<Rightarrow> m < 0 | None \<Rightarrow> False) then
        (Inl (Error ''min must be a positive finite integer!''), s)
      else if (case mx of Some m \<Rightarrow> m < 0 \<or> m > int (length (array s)) | None \<Rightarrow> False) then
        (Inl (Error ''max must be a positive finite integer and must not be larger than the length of this array!''), s)
      else if length (array s) = 0 then (Inr (0, False), s)
      else
        (let min' = (case mn of Some m \<Rightarrow> m | None \<Rightarrow> 0);
             max' = (case mx of Some m \<Rightarrow> m | None \<Rightarrow> int (length (array s)) - 1);
             s1 = sort_private ocf s;
             searchObj = fst (wrapOne s1 ob True None)
         in (search_loop ocf (obj searchObj) (array s1) min' max' (max' div 2), s1)))"

text \<open>
  The two loops of \<open>searchAll\<close>: upwards from the index found, \<open>results.push(i)\<close>, then
  downwards from the one before it, \<open>results.unshift(i)\<close>.
\<close>

function searchAll_up ::
  "('a \<Rightarrow> 'a \<Rightarrow> number) \<Rightarrow> 'a \<Rightarrow> 'a SANode list \<Rightarrow> int \<Rightarrow> int \<Rightarrow> int list \<Rightarrow> error + int list" where
  "searchAll_up ocf ob arr i mx results =
     (if i \<le> mx then
        (case Array_get arr i of
           None \<Rightarrow> Inl TypeError
         | Some node \<Rightarrow>
             if ocf ob (obj node) = Num 0
             then searchAll_up ocf ob arr (i + 1) mx (results @ [i])
             else Inr results)
      else Inr results)"
  by pat_completeness auto
termination
  by (relation "measure (\<lambda>(ocf, ob, arr, i, mx, results). nat (mx - i + 1))") auto

function searchAll_down ::
  "('a \<Rightarrow> 'a \<Rightarrow> number) \<Rightarrow> 'a \<Rightarrow> 'a SANode list \<Rightarrow> int \<Rightarrow> int \<Rightarrow> int list \<Rightarrow> error + int list" where
  "searchAll_down ocf ob arr i mn results =
     (if i \<ge> mn then
        (case Array_get arr i of
           None \<Rightarrow> Inl TypeError
         | Some node \<Rightarrow>
             if ocf ob (obj node) = Num 0
             then searchAll_down ocf ob arr (i - 1) mn (i # results)
             else Inr results)
      else Inr results)"
  by pat_completeness auto
termination
  by (relation "measure (\<lambda>(ocf, ob, arr, i, mn, results). nat (i - mn + 1))") auto

text \<open>\<open>SortedArray.searchAll(obj, min?, max?)\<close>\<close>

definition searchAll ::
  "('a \<Rightarrow> 'a \<Rightarrow> number) \<Rightarrow> 'a SortedArray \<Rightarrow> 'a \<Rightarrow> int option \<Rightarrow> int option
     \<Rightarrow> (error + int list) \<times> 'a SortedArray" where
  "searchAll ocf s ob mn mx =
     (let min' = (case mn of None \<Rightarrow> 0 | Some m \<Rightarrow> m);
          max' = (case mx of None \<Rightarrow> int (length (array s)) - 1 | Some m \<Rightarrow> m)
      in case search ocf s ob (Some min') (Some max') of
           (Inl e, s1) \<Rightarrow> (Inl e, s1)
         | (Inr (i, found), s1) \<Rightarrow>
             if \<not> found then (Inr [], s1)
             else (case searchAll_up ocf ob (array s1) i max' [] of
                     Inl e \<Rightarrow> (Inl e, s1)
                   | Inr results \<Rightarrow> (searchAll_down ocf ob (array s1) (i - 1) min' results, s1)))"

text \<open>
  \<open>SortedArray.searchExact(obj, min?, max?)\<close>. \<open>===\<close> on payloads is equality of the values of
  type \<open>'a\<close>: a payload stands for one object.
\<close>

definition searchExact ::
  "('a \<Rightarrow> 'a \<Rightarrow> number) \<Rightarrow> 'a SortedArray \<Rightarrow> 'a \<Rightarrow> int option \<Rightarrow> int option
     \<Rightarrow> (error + int list) \<times> 'a SortedArray" where
  "searchExact ocf s ob mn mx =
     (case searchAll ocf s ob mn mx of
        (Inl e, s1) \<Rightarrow> (Inl e, s1)
      | (Inr result, s1) \<Rightarrow>
          (Inr (filter (\<lambda>v. case Array_get (array s1) v of
                                Some node \<Rightarrow> obj node = ob
                              | None \<Rightarrow> False) result), s1))"

text \<open>
  The argument \<open>n\<close> of \<open>findNth\<close> and \<open>searchNth\<close>: an integer, or the negative zero \<open>-0\<close>,
  which \<open>Object.is\<close> tells from \<open>0\<close>. \<open>None\<close> is \<open>undefined\<close>.
\<close>

datatype nth = N int | NegZero

definition direction_of :: "nth \<Rightarrow> int" where
  \<comment> \<open>\<open>Math.sign(n) || (Object.is(-0, n) ? -1 : 1)\<close>\<close>
  "direction_of n =
     (case n of N k \<Rightarrow> (if sgn k \<noteq> 0 then sgn k else 1) | NegZero \<Rightarrow> - 1)"

definition offset_of :: "nth \<Rightarrow> int" where
  "offset_of n = (case n of N k \<Rightarrow> k | NegZero \<Rightarrow> 0)"

text \<open>
  The two scans of \<open>searchNth\<close>, past the last and before the first element equal to \<open>obj\<close>.
  They are entered after \<open>++index\<close> and \<open>--index\<close> and return the index at which they stop.
\<close>

function scan_last :: "('a \<Rightarrow> 'a \<Rightarrow> number) \<Rightarrow> 'a \<Rightarrow> 'a SANode list \<Rightarrow> int \<Rightarrow> error + int" where
  "scan_last ocf ob arr i =
     (if i < int (length arr) then
        (case Array_get arr i of
           None \<Rightarrow> Inl TypeError
         | Some node \<Rightarrow> if ocf ob (obj node) = Num 0 then scan_last ocf ob arr (i + 1) else Inr i)
      else Inr i)"
  by pat_completeness auto
termination
  by (relation "measure (\<lambda>(ocf, ob, arr, i). nat (int (length arr) - i))") auto

function scan_first :: "('a \<Rightarrow> 'a \<Rightarrow> number) \<Rightarrow> 'a \<Rightarrow> 'a SANode list \<Rightarrow> int \<Rightarrow> error + int" where
  "scan_first ocf ob arr i =
     (if i \<ge> 0 then
        (case Array_get arr i of
           None \<Rightarrow> Inl TypeError
         | Some node \<Rightarrow> if ocf ob (obj node) = Num 0 then scan_first ocf ob arr (i - 1) else Inr i)
      else Inr i)"
  by pat_completeness auto
termination
  by (relation "measure (\<lambda>(ocf, ob, arr, i). nat (i + 1))") auto

text \<open>
  \<open>SortedArray.searchNth(obj, n, min?, max?, exact?)\<close>. The index of the result is a number or,
  when it was read from \<open>result[index]\<close> outside \<open>result\<close>, \<open>undefined\<close> (\<open>None\<close>). With \<open>n\<close>
  undefined, \<open>offset >= result.length\<close> is false and \<open>result[NaN]\<close> is \<open>undefined\<close>.
\<close>

definition searchNth ::
  "('a \<Rightarrow> 'a \<Rightarrow> number) \<Rightarrow> 'a SortedArray \<Rightarrow> 'a \<Rightarrow> nth option \<Rightarrow> int option \<Rightarrow> int option \<Rightarrow> bool
     \<Rightarrow> (error + int option \<times> bool) \<times> 'a SortedArray" where
  "searchNth ocf s ob n mn mx exact =
     (if exact then
        (case searchExact ocf s ob mn mx of
           (Inl e, s1) \<Rightarrow> (Inl e, s1)
         | (Inr result, s1) \<Rightarrow>
             (case n of
                None \<Rightarrow> (Inr (None, True), s1)
              | Some n' \<Rightarrow>
                  if offset_of n' \<ge> int (length result) then (Inr (Some (- 1), False), s1)
                  else
                    (let i = (if direction_of n' = 1 then 0 else int (length result) - 1)
                               + offset_of n'
                     in (Inr (Array_get result i, True), s1))))
      else
        (case search ocf s ob mn mx of
           (Inl e, s1) \<Rightarrow> (Inl e, s1)
         | (Inr (i, found), s1) \<Rightarrow>
             (case n of
                None \<Rightarrow> (Inr (Some i, found), s1)
              | Some n' \<Rightarrow>
                  if \<not> found then (Inr (Some i, found), s1)
                  else
                    (case (if direction_of n' = - 1
                           then map_sum id (\<lambda>j. j + offset_of n' - 1) (scan_last ocf ob (array s1) (i + 1))
                           else map_sum id (\<lambda>j. j + offset_of n' + 1) (scan_first ocf ob (array s1) (i - 1))) of
                       Inl e \<Rightarrow> (Inl e, s1)
                     | Inr j \<Rightarrow>
                         (Inr (Some j,
                               case Array_get (array s1) j of
                                 Some node \<Rightarrow> ocf ob (obj node) = Num 0
                               | None \<Rightarrow> False), s1)))))"

text \<open>\<open>SortedArray.findNth(obj, n?, exact?)\<close>; \<open>None\<close> as result is \<open>undefined\<close>.\<close>

definition findNth ::
  "('a \<Rightarrow> 'a \<Rightarrow> number) \<Rightarrow> 'a SortedArray \<Rightarrow> 'a \<Rightarrow> nth option \<Rightarrow> bool
     \<Rightarrow> (error + 'a FindResult option) \<times> 'a SortedArray" where
  "findNth ocf s ob n exact =
     (case searchNth ocf (sort_private ocf s) ob n None None exact of
        (Inl e, s1) \<Rightarrow> (Inl e, s1)
      | (Inr (i, found), s1) \<Rightarrow>
          if \<not> found then (Inr None, s1)
          else (case i of
                  None \<Rightarrow> (Inl TypeError, s1)
                | Some j \<Rightarrow>
                    (case Array_get (array s1) j of
                       None \<Rightarrow> (Inl TypeError, s1)
                     | Some node \<Rightarrow> (Inr (Some (FindResult (obj node) j)), s1))))"

text \<open>\<open>SortedArray.findAll(obj, exact?)\<close>\<close>

fun findAll_map :: "'a SANode list \<Rightarrow> int list \<Rightarrow> error + 'a FindResult list" where
  "findAll_map arr [] = Inr []"
| "findAll_map arr (v # vs) =
     (case Array_get arr v of
        None \<Rightarrow> Inl TypeError
      | Some node \<Rightarrow> map_sum id (Cons (FindResult (obj node) v)) (findAll_map arr vs))"

definition findAll ::
  "('a \<Rightarrow> 'a \<Rightarrow> number) \<Rightarrow> 'a SortedArray \<Rightarrow> 'a \<Rightarrow> bool
     \<Rightarrow> (error + 'a FindResult list) \<times> 'a SortedArray" where
  "findAll ocf s ob exact =
     (case (if exact then searchExact ocf (sort_private ocf s) ob None None
            else searchAll ocf (sort_private ocf s) ob None None) of
        (Inl e, s1) \<Rightarrow> (Inl e, s1)
      | (Inr result, s1) \<Rightarrow> (findAll_map (array s1) result, s1))"

text \<open>
  \<open>SortedArray.findNearest(obj)\<close>: \<open>{ eq }\<close> or \<open>{ lt, gt }\<close>. Where the source takes
  \<open>-Infinity\<close> and \<open>Infinity\<close> as indices ("any number < 0 works here", "any number >=
  this.array.length works here"), the model takes \<open>- 1\<close> and the length.
\<close>

datatype 'a Nearest = Eq "'a FindResult" | LtGt "'a FindResult option" "'a FindResult option"

definition findNearest ::
  "('a \<Rightarrow> 'a \<Rightarrow> number) \<Rightarrow> 'a SortedArray \<Rightarrow> 'a \<Rightarrow> (error + 'a Nearest) \<times> 'a SortedArray" where
  "findNearest ocf s ob =
     (case search ocf s ob None None of
        (Inl e, s1) \<Rightarrow> (Inl e, s1)
      | (Inr (i, found), s1) \<Rightarrow>
          if found then
            (case Array_get (array s1) i of
               None \<Rightarrow> (Inl TypeError, s1)
             | Some node \<Rightarrow> (Inr (Eq (FindResult (obj node) i)), s1))
          else
            (case (if i < 0 then Inr (- 1, 0)
                   else if i \<ge> int (length (array s1))
                     then Inr (int (length (array s1)) - 1, int (length (array s1)))
                   else (case Array_get (array s1) i of
                           None \<Rightarrow> Inl TypeError
                         | Some foundObj \<Rightarrow>
                             (case ocf ob (obj foundObj) of
                                NaN \<Rightarrow> Inr (i, i)
                              | Num compare \<Rightarrow>
                                  Inr (i - (if compare < 0 then 1 else 0),
                                       i + (if compare > 0 then 1 else 0))))) of
               Inl e \<Rightarrow> (Inl e, s1)
             | Inr (ltIndex, gtIndex) \<Rightarrow>
                 (case (if ltIndex < 0 then Inr None
                        else (case Array_get (array s1) ltIndex of
                                None \<Rightarrow> Inl TypeError
                              | Some node \<Rightarrow> Inr (Some (FindResult (obj node) ltIndex)))) of
                    Inl e \<Rightarrow> (Inl e, s1)
                  | Inr lt \<Rightarrow>
                      (case (if gtIndex \<ge> int (length (array s1)) then Inr None
                             else (case Array_get (array s1) gtIndex of
                                     None \<Rightarrow> Inl TypeError
                                   | Some node \<Rightarrow> Inr (Some (FindResult (obj node) gtIndex)))) of
                         Inl e \<Rightarrow> (Inl e, s1)
                       | Inr gt \<Rightarrow> (Inr (LtGt lt gt), s1)))))"

section \<open>Removing\<close>

text \<open>\<open>xs.splice(k, 1)\<close> for \<open>k\<close> inside \<open>xs\<close>: what is left of \<open>xs\<close>.\<close>

definition remove_at :: "nat \<Rightarrow> 'b list \<Rightarrow> 'b list" where
  "remove_at k xs = take k xs @ drop (Suc k) xs"

text \<open>
  The loop of \<open>removeAll\<close> over the sorted indices; \<open>i\<close> counts the rounds, \<open>acc\<close> collects
  the payloads. The error leaves the array as the rounds before it made it.
\<close>

fun removeAll_loop ::
  "'a SortedArray \<Rightarrow> int list \<Rightarrow> int \<Rightarrow> 'a list \<Rightarrow> (error + 'a list) \<times> 'a SortedArray" where
  "removeAll_loop s [] i acc = (Inr acc, s)"
| "removeAll_loop s (x # indices) i acc =
     (let index = x - i
      in if index < 0 \<or> index \<ge> int (length (array s)) then (Inl (oob s index), s)
         else removeAll_loop (s\<lparr>array := remove_at (nat index) (array s)\<rparr>) indices (i + 1)
                (acc @ [obj (array s ! nat index)]))"

definition removeAll_method ::
  "('a \<Rightarrow> 'a \<Rightarrow> number) \<Rightarrow> 'a SortedArray \<Rightarrow> int list \<Rightarrow> (error + 'a list) \<times> 'a SortedArray" where
  "removeAll_method ocf s indices =
     removeAll_loop (sort_private ocf s) (Array_sort (\<lambda>a b. Num (a - b)) indices) 0 []"

text \<open>\<open>pop\<close> and \<open>shift\<close>: \<open>this.array.pop().obj\<close>, \<open>this.array.shift().obj\<close>.\<close>

definition pop :: "('a \<Rightarrow> 'a \<Rightarrow> number) \<Rightarrow> 'a SortedArray \<Rightarrow> (error + 'a) \<times> 'a SortedArray" where
  "pop ocf s =
     (let s1 = sort_private ocf s
      in if array s1 = [] then (Inl TypeError, s1)
         else (Inr (obj (last (array s1))), s1\<lparr>array := butlast (array s1)\<rparr>))"

definition shift :: "('a \<Rightarrow> 'a \<Rightarrow> number) \<Rightarrow> 'a SortedArray \<Rightarrow> (error + 'a) \<times> 'a SortedArray" where
  "shift ocf s =
     (let s1 = sort_private ocf s
      in case array s1 of
           [] \<Rightarrow> (Inl TypeError, s1)
         | node # rest \<Rightarrow> (Inr (obj node), s1\<lparr>array := rest\<rparr>))"

text \<open>
  \<open>Array.prototype.splice(start, deleteCount)\<close> of the runtime, called with both arguments:
  an undefined \<open>deleteCount\<close> counts as zero. It returns what it removed and what is left.
\<close>

definition Array_splice :: "'b list \<Rightarrow> int \<Rightarrow> int option \<Rightarrow> 'b list \<times> 'b list" where
  "Array_splice xs start deleteCount =
     (let actualStart = relative_index (length xs) start;
          dc = (case deleteCount of None \<Rightarrow> 0 | Some d \<Rightarrow> d);
          actualDeleteCount = min (nat dc) (length xs - actualStart)
      in (take actualDeleteCount (drop actualStart xs),
          take actualStart xs @ drop (actualStart + actualDeleteCount) xs))"

definition splice_method ::
  "('a \<Rightarrow> 'a \<Rightarrow> number) \<Rightarrow> 'a SortedArray \<Rightarrow> int \<Rightarrow> int option \<Rightarrow> 'a list
     \<Rightarrow> (error + 'a list) \<times> 'a SortedArray" where
  "splice_method ocf s start deleteCount items =
     (if length items > 0 then
        (Inl (Error ''splice is an invalid operation on a sorted array when providing replacement items''), s)
      else
        (let s1 = sort_private ocf s;
             (removed, rest) = Array_splice (array s1) start deleteCount
         in (Inr (unwrap removed), s1\<lparr>array := rest\<rparr>)))"

text \<open>\<open>SortedArray.sort(compareFn?)\<close>\<close>

definition sort_method ::
  "('a \<Rightarrow> 'a \<Rightarrow> number) \<Rightarrow> 'a SortedArray \<Rightarrow> ('a \<Rightarrow> 'a \<Rightarrow> number) option
     \<Rightarrow> (error + unit) \<times> 'a SortedArray" where
  "sort_method ocf s compareFn_arg =
     (case compareFn_arg of
        Some f \<Rightarrow>
          (Inl (Error ''sort is an invalid operation on a sorted array when providing a new compare function''), s)
      | None \<Rightarrow> (Inr (), sort_private ocf (s\<lparr>sorted_flag := False\<rparr>)))"

section \<open>The operations that are refused\<close>

definition push :: "'a SortedArray \<Rightarrow> 'a list \<Rightarrow> (error + nat) \<times> 'a SortedArray" where
  "push s items = (Inl (uo ''push''), s)"

definition concat_method :: "'a SortedArray \<Rightarrow> 'a list list \<Rightarrow> (error + 'a list) \<times> 'a SortedArray" where
  "concat_method s items = (Inl (uo ''concat''), s)"

definition reverse :: "'a SortedArray \<Rightarrow> (error + 'a list) \<times> 'a SortedArray" where
  "reverse s = (Inl (uo ''reverse''), s)"

definition unshift :: "'a SortedArray \<Rightarrow> 'a list \<Rightarrow> (error + nat) \<times> 'a SortedArray" where
  "unshift s items = (Inl (uo ''unshift''), s)"

definition fill ::
  "'a SortedArray \<Rightarrow> 'a \<Rightarrow> int option \<Rightarrow> int option \<Rightarrow> (error + unit) \<times> 'a SortedArray" where
  "fill s v start end = (Inl (uo ''fill''), s)"

definition copyWithin ::
  "'a SortedArray \<Rightarrow> int \<Rightarrow> int \<Rightarrow> int option \<Rightarrow> (error + unit) \<times> 'a SortedArray" where
  "copyWithin s target start end = (Inl (uo ''copyWithin''), s)"

text \<open>
  \<open>Handler.checkInteger\<close> and \<open>Handler.set\<close>. The property key and the value are values of
  the runtime of any kind; what the handler asks of them is taken as parameters:
  \<open>isSymbol p\<close> for \<open>typeof p === "symbol"\<close>, \<open>toNumber p\<close> for \<open>Number(p)\<close> and \<open>isLength p\<close>
  for \<open>p === "length"\<close>.
\<close>

datatype numeric = Finite real | PlusInfinity | MinusInfinity | NotANumber

definition checkInteger :: "('p \<Rightarrow> bool) \<Rightarrow> ('p \<Rightarrow> numeric) \<Rightarrow> 'p \<Rightarrow> numeric option" where
  "checkInteger isSymbol toNumber p =
     (if isSymbol p then None
      else (case toNumber p of
              NotANumber \<Rightarrow> None
            | Finite r \<Rightarrow> if of_int \<lfloor>r\<rfloor> = r then Some (Finite r) else None
            | PlusInfinity \<Rightarrow> Some PlusInfinity
            | MinusInfinity \<Rightarrow> Some MinusInfinity))"

text \<open>
  What \<open>Handler.set\<close> does when it does not throw: it has cut the array to the new length,
  or it has passed the assignment on to \<open>Reflect.set\<close>.
\<close>

datatype set_outcome = LengthSet | PassedThrough

definition Handler_set ::
  "('p \<Rightarrow> bool) \<Rightarrow> ('p \<Rightarrow> numeric) \<Rightarrow> ('p \<Rightarrow> bool) \<Rightarrow> 'a SortedArray \<Rightarrow> 'p \<Rightarrow> 'p
     \<Rightarrow> (error + set_outcome) \<times> 'a SortedArray" where
  "Handler_set isSymbol toNumber isLength target p v =
     (case checkInteger isSymbol toNumber p of
        Some i \<Rightarrow> (Inl (Error ''set is an invalid operation on a sorted array''), target)
      | None \<Rightarrow>
          if isLength p then
            (case checkInteger isSymbol toNumber v of
               None \<Rightarrow> (Inl (RangeError ''Invalid array length''), target)
             | Some MinusInfinity \<Rightarrow> (Inl (RangeError ''Invalid array length''), target)
             | Some PlusInfinity \<Rightarrow>
                 (Inl (RangeError ''The length of a SortedArray may not be extended''), target)
             | Some NotANumber \<Rightarrow> (Inl (RangeError ''Invalid array length''), target)
             | Some (Finite newLength) \<Rightarrow>
                 if newLength < 0 then (Inl (RangeError ''Invalid array length''), target)
                 else if newLength > real (length (array target)) then
                   (Inl (RangeError ''The length of a SortedArray may not be extended''), target)
                 else (Inr LengthSet, target\<lparr>array := take (nat \<lfloor>newLength\<rfloor>) (array target)\<rparr>))
          else (Inr PassedThrough, target))"

section \<open>The default compare function\<close>

text \<open>
  A string of the runtime is a sequence of 16-bit code units, and \<open>charCodeAt\<close> reads one of
  them (\<open>NaN\<close> outside the string).
\<close>

type_synonym jsstring = "16 word list"

definition charCodeAt :: "jsstring \<Rightarrow> nat \<Rightarrow> number" where
  "charCodeAt a i = (if i < length a then Num (uint (a ! i)) else NaN)"

definition minus_number :: "number \<Rightarrow> number \<Rightarrow> number" where
  "minus_number x y = (case (x, y) of (Num a, Num b) \<Rightarrow> Num (a - b) | _ \<Rightarrow> NaN)"

text \<open>The \<open>do ... while (compare === 0 && i < len)\<close> loop of \<open>DefaultSort\<close>; it returns \<open>compare\<close>.\<close>

function DefaultSort_loop :: "jsstring \<Rightarrow> jsstring \<Rightarrow> nat \<Rightarrow> nat \<Rightarrow> number" where
  "DefaultSort_loop a b i len =
     (let compare = minus_number (charCodeAt a i) (charCodeAt b i);
          i' = i + 1
      in if compare = Num 0 \<and> i' < len then DefaultSort_loop a b i' len else compare)"
  by pat_completeness auto
termination
  by (relation "measure (\<lambda>(a, b, i, len). len - i)") auto

text \<open>
  \<open>SortedArray.CompareFunctions.DefaultSort\<close>. An operand is \<open>undefined\<close> (\<open>None\<close>) or a value;
  \<open>toStr\<close> is the conversion \<open>String(a)\<close> of the runtime.
\<close>

definition DefaultSort :: "('v \<Rightarrow> jsstring) \<Rightarrow> 'v option \<Rightarrow> 'v option \<Rightarrow> number" where
  "DefaultSort toStr a b =
     (if a = b then Num 0
      else (case (a, b) of
              (None, _) \<Rightarrow> Num 1
            | (_, None) \<Rightarrow> Num (- 1)
            | (Some x, Some y) \<Rightarrow>
                (let a' = toStr x; b' = toStr y
                 in if a' = b' then Num 0
                    else if length a' = 0 then Num (- 1)
                    else if length b' = 0 then Num 1
                    else (let compare = DefaultSort_loop a' b' 0 (min (length a') (length b'))
                          in if compare = Num 0
                             then (if length a' < length b' then Num (- 1) else Num 1)
                             else compare))))"

section \<open>Compare functions used in examples\<close>

text \<open>\<open>SortedArray.CompareFunctions.NumericSort\<close>: \<open>(a, b) => a - b\<close>\<close>

definition NumericSort :: "int \<Rightarrow> int \<Rightarrow> number" where
  "NumericSort a b = Num (a - b)"

text \<open>The compare function of the examples in the documentation: \<open>(a, b) => a[0] - b[0]\<close>\<close>

definition compare_first :: "int \<times> int \<Rightarrow> int \<times> int \<Rightarrow> number" where
  "compare_first a b = Num (fst a - fst b)"

section \<open>Orders used to state the properties\<close>

text \<open>The lexicographic order of two sequences; a proper prefix comes first.\<close>

fun lex_less :: "'b::linorder list \<Rightarrow> 'b list \<Rightarrow> bool" where
  "lex_less [] [] = False"
| "lex_less [] (y # ys) = True"
| "lex_less (x # xs) [] = False"
| "lex_less (x # xs) (y # ys) = (x < y \<or> (x = y \<and> lex_less xs ys))"

text \<open>
  The code points that a string of 16-bit code units stands for: a high surrogate
  followed by a low surrogate is one code point above \<open>0xFFFF\<close>, any other unit is a code
  point by itself.
\<close>

fun code_points :: "jsstring \<Rightarrow> nat list" where
  "code_points [] = []"
| "code_points [u] = [unat u]"
| "code_points (u # v # rest) =
     (if 0xD800 \<le> u \<and> u \<le> 0xDBFF \<and> 0xDC00 \<le> v \<and> v \<le> 0xDFFF
      then (0x10000 + (unat u - 0xD800) * 0x400 + (unat v - 0xDC00)) # code_points rest
      else unat u # code_points (v # rest))"

text \<open>
  \<open>cle f x y\<close>: the compare function \<open>f\<close> does not put \<open>x\<close> after \<open>y\<close>. A compare function
  is consistent when it never returns \<open>NaN\<close>, the sign of \<open>f a b\<close> is the opposite of the
  sign of \<open>f b a\<close>, and \<open>cle f\<close> is transitive; this is what the language standard asks of
  the argument of \<open>sort\<close>.
\<close>

definition cle :: "('b \<Rightarrow> 'b \<Rightarrow> number) \<Rightarrow> 'b \<Rightarrow> 'b \<Rightarrow> bool" where
  "cle f x y \<longleftrightarrow> SortCompare f x y \<le> 0"

definition consistent :: "('b \<Rightarrow> 'b \<Rightarrow> number) \<Rightarrow> bool" where
  "consistent f \<longleftrightarrow>
     (\<forall>a b. f a b \<noteq> NaN) \<and>
     (\<forall>a b. sgn (SortCompare f a b) = - sgn (SortCompare f b a)) \<and>
     (\<forall>a b c. cle f a b \<and> cle f b c \<longrightarrow> cle f a c)"

section \<open>States of the collection\<close>

text \<open>
  The flags tell the truth: no sort is under way, and if the collection is marked as
  sorted, the backing array is sorted by \<open>this.compareFn\<close>.
\<close>

definition flags_sound :: "('a \<Rightarrow> 'a \<Rightarrow> number) \<Rightarrow> 'a SortedArray \<Rightarrow> bool" where
  "flags_sound ocf s \<longleftrightarrow>
     \<not> sorting s \<and> (sorted_flag s \<longrightarrow> sorted_wrt (cle (compareFn ocf)) (array s))"

text \<open>A sequence of \<open>addAll\<close> calls (\<open>add(...items)\<close> is \<open>addAll(items)\<close>), whatever each returns.\<close>

definition addAll_calls :: "'a SortedArray \<Rightarrow> 'a list list \<Rightarrow> 'a SortedArray" where
  "addAll_calls s itemss = fold (\<lambda>items st. snd (addAll st items)) itemss s"

section \<open>Neighbours of a key\<close>

text \<open>
  \<open>greatest_below ocf key xs lt\<close>: in the sorted view \<open>xs\<close>, \<open>lt\<close> is the greatest element
  strictly below \<open>key\<close>, with its index, or \<open>None\<close> when no element is below \<open>key\<close>.
  \<open>least_above\<close> is the mirror image. An element \<open>x\<close> is below \<open>key\<close> when
  \<open>ocf key x\<close> is positive.
\<close>

definition greatest_below ::
  "('a \<Rightarrow> 'a \<Rightarrow> number) \<Rightarrow> 'a \<Rightarrow> 'a list \<Rightarrow> 'a FindResult option \<Rightarrow> bool" where
  "greatest_below ocf key xs lt =
     (case lt of
        None \<Rightarrow> \<forall>x\<in>set xs. \<not> SortCompare ocf key x > 0
      | Some (FindResult v i) \<Rightarrow>
          0 \<le> i \<and> i < int (length xs) \<and> v = xs ! nat i \<and> SortCompare ocf key v > 0 \<and>
          (\<forall>j < length xs. SortCompare ocf key (xs ! j) > 0 \<longrightarrow> int j \<le> i))"

definition least_above ::
  "('a \<Rightarrow> 'a \<Rightarrow> number) \<Rightarrow> 'a \<Rightarrow> 'a list \<Rightarrow> 'a FindResult option \<Rightarrow> bool" where
  "least_above ocf key xs gt =
     (case gt of
        None \<Rightarrow> \<forall>x\<in>set xs. \<not> SortCompare ocf key x < 0
      | Some (FindResult v i) \<Rightarrow>
          0 \<le> i \<and> i < int (length xs) \<and> v = xs ! nat i \<and> SortCompare ocf key v < 0 \<and>
          (\<forall>j < length xs. SortCompare ocf key (xs ! j) < 0 \<longrightarrow> i \<le> int j))"

text \<open>
  The insertion indices are sound: the nodes of the backing array carry pairwise
  different indices, all from \<open>MIN_SAFE_INTEGER\<close> up to but not including the counter,
  the counter is below \<open>MAX_SAFE_INTEGER\<close>, and the array is no longer than an array of
  the runtime can be.
\<close>

definition counter_sound :: "'a SortedArray \<Rightarrow> bool" where
  "counter_sound s \<longleftrightarrow>
     distinct (map index (array s)) \<and>
     (\<forall>x\<in>set (array s). MIN_SAFE_INTEGER \<le> index x \<and> index x < insertionCounter s) \<and>
     MIN_SAFE_INTEGER \<le> insertionCounter s \<and> insertionCounter s < MAX_SAFE_INTEGER \<and>
     length (array s) \<le> MAX_ARRAY_LENGTH"

section \<open>Histories of calls\<close>





text \<open>
  \<open>inserted_before h a b\<close>: in the list \<open>h\<close> of inserted payloads, \<open>a\<close> comes before \<open>b\<close>.
  Each payload of \<open>h\<close> stands for one object, so \<open>h\<close> is taken without repetitions and a
  payload has one position.
\<close>

definition position_in :: "'a list \<Rightarrow> 'a \<Rightarrow> nat" where
  "position_in h a = length (takeWhile (\<lambda>x. x \<noteq> a) h)"


text \<open>
  The insertion indices follow the insertions: every node holds an inserted payload,
  and two nodes are ordered by their indices as their payloads are by insertion.
\<close>

definition tracks_insertion :: "'a list \<Rightarrow> 'a SortedArray \<Rightarrow> bool" where
  "tracks_insertion h s \<longleftrightarrow>
     (\<forall>x\<in>set (array s). obj x \<in> set h) \<and>
     (\<forall>x\<in>set (array s). \<forall>y\<in>set (array s).
        index x < index y \<longleftrightarrow> position_in h (obj x) < position_in h (obj y))"

text \<open>The three together: what holds of a collection after any sequence of calls.\<close>

definition sound :: "('a \<Rightarrow> 'a \<Rightarrow> number) \<Rightarrow> 'a list \<Rightarrow> 'a SortedArray \<Rightarrow> bool" where
  "sound ocf h s \<longleftrightarrow> counter_sound s \<and> flags_sound ocf s \<and> tracks_insertion h s"


section \<open>Properties\<close>

lemmas model_eval =
  constructor_def wrapOne_def sort_private_def Array_sort_def compareFn_def SortCompare_def
  MIN_SAFE_INTEGER_def MAX_SAFE_INTEGER_def MAX_ARRAY_LENGTH_def Array_get_def Array_push_def
  unwrap_def toArray_def NumericSort_def compare_first_def Let_def

subsection \<open>The sort of the runtime\<close>

lemma length_sort_insert: "length (sort_insert f x ys) = Suc (length ys)"
  by (induction ys) auto

lemma length_Array_sort: "length (Array_sort f xs) = length xs"
  by (induction xs) (auto simp: Array_sort_def length_sort_insert)

lemma mset_sort_insert: "mset (sort_insert f x ys) = add_mset x (mset ys)"
  by (induction ys) auto

lemma mset_Array_sort: "mset (Array_sort f xs) = mset xs"
  by (induction xs) (auto simp: Array_sort_def mset_sort_insert)


lemma array_sort_private_Nil: "array (sort_private ocf s) = [] \<longleftrightarrow> array s = []"
  using length_Array_sort [of "compareFn ocf" "array s"]
  by (auto simp: sort_private_def Let_def simp del: length_0_conv dest!: arg_cong [where f = length])

subsection \<open>Taking from the ends\<close>

text \<open>
  C10. On an empty collection \<open>pop\<close> and \<open>shift\<close> do not return \<open>undefined\<close>: they read
  \<open>.obj\<close> of the \<open>undefined\<close> that the empty backing array hands out, which is a
  \<open>TypeError\<close>. On a collection that is not empty they return the last and the first
  payload of the sorted view and leave the rest of it.
\<close>

theorem pop_shift_empty_throws:
  "(array s = [] \<longrightarrow>
      fst (pop ocf s) = Inl TypeError \<and> fst (shift ocf s) = Inl TypeError) \<and>
   (array s \<noteq> [] \<longrightarrow>
      fst (pop ocf s) = Inr (last (fst (toArray ocf s))) \<and>
      array (snd (pop ocf s)) = butlast (array (snd (toArray ocf s))) \<and>
      fst (shift ocf s) = Inr (hd (fst (toArray ocf s))) \<and>
      array (snd (shift ocf s)) = tl (array (snd (toArray ocf s))))"
proof -
  have e: "array (sort_private ocf s) = [] \<longleftrightarrow> array s = []"
    by (rule array_sort_private_Nil)
  show ?thesis
  proof (intro conjI impI)
    assume "array s = []"
    then show "fst (pop ocf s) = Inl TypeError" "fst (shift ocf s) = Inl TypeError"
      using e by (simp_all add: pop_def shift_def Let_def)
  next
    assume ne: "array s \<noteq> []"
    then have ne': "array (sort_private ocf s) \<noteq> []" using e by simp
    show "fst (pop ocf s) = Inr (last (fst (toArray ocf s)))"
      using ne' by (simp add: pop_def toArray_def unwrap_def Let_def last_map)
    show "array (snd (pop ocf s)) = butlast (array (snd (toArray ocf s)))"
      using ne' by (simp add: pop_def toArray_def Let_def)
    show "fst (shift ocf s) = Inr (hd (fst (toArray ocf s)))"
      using ne' by (cases "array (sort_private ocf s)")
        (simp_all add: shift_def toArray_def unwrap_def Let_def)
    show "array (snd (shift ocf s)) = tl (array (snd (toArray ocf s)))"
      using ne' by (cases "array (sort_private ocf s)")
        (simp_all add: shift_def toArray_def unwrap_def Let_def)
  qed
qed

theorem pop_shift_empty_throws_witness:
  "array (constructor None :: int SortedArray) = [] \<and>
   fst (pop NumericSort (constructor None)) = Inl TypeError \<and>
   fst (shift NumericSort (constructor None)) = Inl TypeError \<and>
   array (constructor (Some [5, 3, 9 :: int])) \<noteq> [] \<and>
   fst (toArray NumericSort (constructor (Some [5, 3, 9]))) = [3, 5, 9] \<and>
   fst (pop NumericSort (constructor (Some [5, 3, 9]))) = Inr 9 \<and>
   fst (shift NumericSort (constructor (Some [5, 3, 9]))) = Inr 3"
proof -
  have a: "array (constructor None :: int SortedArray) = []"
    by (simp add: constructor_def)
  have b: "array (constructor (Some [5, 3, 9 :: int])) \<noteq> []"
    by (simp add: model_eval)
  have c: "fst (toArray NumericSort (constructor (Some [5, 3, 9]))) = [3, 5, 9]"
    by (simp add: model_eval)
  show ?thesis
    using a b c
      pop_shift_empty_throws [of "constructor None" NumericSort]
      pop_shift_empty_throws [of "constructor (Some [5, 3, 9])" NumericSort]
    by simp
qed

subsection \<open>The refused operations\<close>

text \<open>
  C8. In every state of the collection, \<open>push\<close>, \<open>concat\<close>, \<open>reverse\<close>, \<open>unshift\<close>, \<open>fill\<close>,
  \<open>copyWithin\<close>, an assignment to an index, \<open>sort\<close> with a compare function and \<open>splice\<close>
  with replacement items throw an error and leave the collection as it was.
\<close>

theorem refused_mutations_throw:
  "push s items = (Inl (uo ''push''), s) \<and>
   concat_method s itemss = (Inl (uo ''concat''), s) \<and>
   reverse s = (Inl (uo ''reverse''), s) \<and>
   unshift s items = (Inl (uo ''unshift''), s) \<and>
   fill s v start end = (Inl (uo ''fill''), s) \<and>
   copyWithin s target from end = (Inl (uo ''copyWithin''), s) \<and>
   (checkInteger isSymbol toNumber p \<noteq> None \<longrightarrow>
      Handler_set isSymbol toNumber isLength s p w =
        (Inl (Error ''set is an invalid operation on a sorted array''), s)) \<and>
   sort_method ocf s (Some f) =
     (Inl (Error ''sort is an invalid operation on a sorted array when providing a new compare function''), s) \<and>
   (replacement \<noteq> [] \<longrightarrow>
      splice_method ocf s k deleteCount replacement =
        (Inl (Error ''splice is an invalid operation on a sorted array when providing replacement items''), s))"
  by (auto simp: push_def concat_method_def reverse_def unshift_def fill_def copyWithin_def
        Handler_set_def sort_method_def splice_method_def)

theorem refused_mutations_throw_witness:
  "checkInteger (\<lambda>p. False) (\<lambda>p :: int. Finite (real_of_int p)) 0 \<noteq> None \<and> [7 :: int] \<noteq> [] \<and>
   push (constructor (Some [5, 3, 9 :: int])) [7] =
     (Inl (Error ''push is an invalid operation on a sorted array''), constructor (Some [5, 3, 9])) \<and>
   Handler_set (\<lambda>p. False) (\<lambda>p :: int. Finite (real_of_int p)) (\<lambda>p. False)
       (constructor (Some [5, 3, 9 :: int])) 0 7 =
     (Inl (Error ''set is an invalid operation on a sorted array''), constructor (Some [5, 3, 9])) \<and>
   splice_method NumericSort (constructor (Some [5, 3, 9 :: int])) 0 (Some 0) [7] =
     (Inl (Error ''splice is an invalid operation on a sorted array when providing replacement items''),
      constructor (Some [5, 3, 9]))"
proof -
  have h: "checkInteger (\<lambda>p. False) (\<lambda>p :: int. Finite (real_of_int p)) 0 \<noteq> None"
    by (simp add: checkInteger_def)
  show ?thesis
    using h refused_mutations_throw
      [of "constructor (Some [5, 3, 9 :: int])" "[7]" _ _ _ _ _ _
          "\<lambda>p. False" "\<lambda>p :: int. Finite (real_of_int p)" 0 "\<lambda>p. False" 7 NumericSort _ "[7]" 0 "Some 0"]
    by (simp add: uo_def)
qed

subsection \<open>Searching between bounds\<close>

text \<open>
  C3. \<open>search(obj, min, max)\<close> is to search between \<open>min\<close> and \<open>max\<close>, so an index it reports
  as found lies in \<open>[min, max]\<close>. The first probe is at \<open>Math.floor(max / 2)\<close>, whatever
  \<open>min\<close> is: in the sorted array of the payloads 0 to 6, the search for 3 between 5 and 6
  probes index 3 and reports it as found. With \<open>max\<close> equal to the length, which the
  check on \<open>max\<close> lets through, the search for 5 in the array of 1 and 2 probes index 2,
  outside the array, and fails with a \<open>TypeError\<close>.
\<close>

theorem search_first_probe_ignores_min:
  "fst (search NumericSort (constructor (Some [0, 1, 2, 3, 4, 5, 6])) 3 (Some 5) (Some 6))
     = Inr (3, True) \<and>
   fst (search NumericSort (constructor (Some [1, 2])) 5 (Some 0) (Some 2)) = Inl TypeError"
  by (simp add: search_def model_eval)

subsection \<open>The nth exact match\<close>

text \<open>
  C5. With \<open>exact\<close> set, \<open>findNth\<close> is to return \<open>undefined\<close> when \<open>n\<close> points outside the list of
  identical matches. In the collection of the documentation, which holds the payload
  \<open>[3, 1]\<close> twice, \<open>findNth(exact, -1, true)\<close> finds index 5, but \<open>findNth(exact, -2, true)\<close>
  and \<open>findNth(exact, -3, true)\<close> read \<open>.obj\<close> of \<open>undefined\<close> and fail with a \<open>TypeError\<close>,
  and so does a negative \<open>n\<close> for a payload without any match. On the empty collection
  the call fails in the check of \<open>max\<close>.
\<close>

theorem findNth_exact_negative_throws:
  "fst (findNth compare_first
          (constructor (Some [(1, 1), (1, 2), (2, 1), (2, 2), (2, 3), (3, 1), (3, 1)]))
          (3, 1) (Some (N (- 1))) True) = Inr (Some (FindResult (3, 1) 5)) \<and>
   fst (findNth compare_first
          (constructor (Some [(1, 1), (1, 2), (2, 1), (2, 2), (2, 3), (3, 1), (3, 1)]))
          (3, 1) (Some (N (- 2))) True) = Inl TypeError \<and>
   fst (findNth compare_first
          (constructor (Some [(1, 1), (1, 2), (2, 1), (2, 2), (2, 3), (3, 1), (3, 1)]))
          (3, 1) (Some (N (- 3))) True) = Inl TypeError \<and>
   fst (findNth compare_first
          (constructor (Some [(1, 1), (1, 2), (2, 1), (2, 2), (2, 3), (3, 1), (3, 1)]))
          (4, 1) (Some (N (- 1))) True) = Inl TypeError \<and>
   fst (findNth compare_first (constructor None) (3, 1) (Some (N 0)) True) =
     Inl (Error ''max must be a positive finite integer and must not be larger than the length of this array!'')"
  by (simp add: findNth_def searchNth_def searchExact_def searchAll_def search_def model_eval
        offset_of_def direction_of_def)

subsection \<open>The default compare function\<close>

declare DefaultSort_loop.simps [simp del]

lemma lex_less_irrefl: "\<not> lex_less xs xs"
  by (induction xs) auto

lemma lex_less_asym: "lex_less xs ys \<Longrightarrow> \<not> lex_less ys xs"
  by (induction xs ys rule: lex_less.induct) auto

lemma lex_less_append: "zs \<noteq> [] \<Longrightarrow> lex_less xs (xs @ zs)"
  by (induction xs) (auto simp: neq_Nil_conv)

lemma lex_less_suffix:
  "length us = length vs \<Longrightarrow> lex_less us vs \<Longrightarrow> lex_less (us @ p) (vs @ q)"
  by (induction us vs rule: lex_less.induct) auto

lemma DefaultSort_loop_spec:
  "i < len \<Longrightarrow> len \<le> length a \<Longrightarrow> len \<le> length b \<Longrightarrow>
   \<exists>c. DefaultSort_loop a b i len = Num c \<and>
       (c < 0 \<longrightarrow> lex_less (drop i (take len a)) (drop i (take len b))) \<and>
       (c > 0 \<longrightarrow> lex_less (drop i (take len b)) (drop i (take len a))) \<and>
       (c = 0 \<longrightarrow> drop i (take len a) = drop i (take len b))"
proof (induction a b i len rule: DefaultSort_loop.induct)
  case (1 a b i len)
  have da: "drop i (take len a) = a ! i # drop (Suc i) (take len a)"
    using "1.prems" by (simp add: Cons_nth_drop_Suc [symmetric])
  have db: "drop i (take len b) = b ! i # drop (Suc i) (take len b)"
    using "1.prems" by (simp add: Cons_nth_drop_Suc [symmetric])
  have cc: "minus_number (charCodeAt a i) (charCodeAt b i) = Num (uint (a ! i) - uint (b ! i))"
    using "1.prems" by (simp add: charCodeAt_def minus_number_def)
  show ?case
  proof (cases "a ! i = b ! i")
    case False
    then have ne: "uint (a ! i) - uint (b ! i) \<noteq> 0" by (simp add: word_uint_eq_iff)
    have "DefaultSort_loop a b i len = Num (uint (a ! i) - uint (b ! i))"
      using ne cc by (subst DefaultSort_loop.simps) (simp add: Let_def)
    then show ?thesis using False ne da db by (auto simp: word_less_def)
  next
    case True
    show ?thesis
    proof (cases "Suc i < len")
      case True2: True
      have "DefaultSort_loop a b i len = DefaultSort_loop a b (Suc i) len"
        using True True2 cc by (subst DefaultSort_loop.simps) (simp add: Let_def)
      moreover have "\<exists>c. DefaultSort_loop a b (Suc i) len = Num c \<and>
         (c < 0 \<longrightarrow> lex_less (drop (Suc i) (take len a)) (drop (Suc i) (take len b))) \<and>
         (c > 0 \<longrightarrow> lex_less (drop (Suc i) (take len b)) (drop (Suc i) (take len a))) \<and>
         (c = 0 \<longrightarrow> drop (Suc i) (take len a) = drop (Suc i) (take len b))"
        using "1.IH" [OF refl refl] True True2 cc "1.prems" by simp
      ultimately show ?thesis using True da db by auto
    next
      case False
      then have "len = Suc i" using "1.prems" by simp
      then have e: "drop (Suc i) (take len a) = []" "drop (Suc i) (take len b) = []" by simp_all
      have "DefaultSort_loop a b i len = Num 0"
        using True False cc by (subst DefaultSort_loop.simps) (simp add: Let_def)
      then show ?thesis using True da db e by simp
    qed
  qed
qed

lemma DefaultSort_strings:
  assumes "a \<noteq> b"
  shows "\<exists>c. (if length a = 0 then Num (- 1)
              else if length b = 0 then Num 1
              else (let compare = DefaultSort_loop a b 0 (min (length a) (length b))
                    in if compare = Num 0
                       then (if length a < length b then Num (- 1) else Num 1)
                       else compare)) = Num c \<and>
             (c < 0 \<longrightarrow> lex_less a b) \<and> (c > 0 \<longrightarrow> lex_less b a) \<and> c \<noteq> 0"
proof (cases "a = [] \<or> b = []")
  case True
  then show ?thesis using assms by (cases a; cases b) auto
next
  case False
  define len where "len = min (length a) (length b)"
  have l: "0 < len" "len \<le> length a" "len \<le> length b" using False by (auto simp: len_def)
  obtain c where c: "DefaultSort_loop a b 0 len = Num c"
      "c < 0 \<longrightarrow> lex_less (take len a) (take len b)"
      "c > 0 \<longrightarrow> lex_less (take len b) (take len a)"
      "c = 0 \<longrightarrow> take len a = take len b"
    using DefaultSort_loop_spec [OF l] by auto
  have sa: "a = take len a @ drop len a" and sb: "b = take len b @ drop len b" by simp_all
  have ll: "length (take len a) = length (take len b)" using l by simp
  show ?thesis
  proof (cases "c = 0")
    case False
    have "c < 0 \<longrightarrow> lex_less a b"
      using c(2) lex_less_suffix [OF ll, of "drop len a" "drop len b"] by simp
    moreover have "c > 0 \<longrightarrow> lex_less b a"
      using c(3) lex_less_suffix [OF ll [symmetric], of "drop len b" "drop len a"] by simp
    ultimately show ?thesis using False c(1) \<open>\<not> (a = [] \<or> b = [])\<close>
      by (simp add: len_def [symmetric] Let_def)
  next
    case True
    then have eq: "take len a = take len b" using c(4) by simp
    show ?thesis
    proof (cases "length a < length b")
      case True3: True
      then have "len = length a" by (simp add: len_def)
      then have "b = a @ drop len b" using eq sb by simp
      moreover have "drop len b \<noteq> []" using True3 \<open>len = length a\<close> by simp
      ultimately have "lex_less a b" using lex_less_append by metis
      then show ?thesis using True True3 c(1) \<open>\<not> (a = [] \<or> b = [])\<close>
        by (simp add: len_def [symmetric] Let_def)
    next
      case False3: False
      then have lb: "len = length b" by (simp add: len_def)
      then have ab: "a = b @ drop len a" using eq sa by simp
      have "drop len a \<noteq> []"
      proof
        assume "drop len a = []"
        then have "a = b" using ab by simp
        then show False using assms by simp
      qed
      then have "lex_less b a" using ab lex_less_append by metis
      then show ?thesis using True False3 c(1) \<open>\<not> (a = [] \<or> b = [])\<close>
        by (simp add: len_def [symmetric] Let_def)
    qed
  qed
qed

text \<open>
  C9, amended. The default compare function puts \<open>undefined\<close> after every defined operand
  (and two \<open>undefined\<close> compare equal). Two defined operands are converted to strings and the
  strings are compared by their sequences of 16-bit code units, as \<open>charCodeAt\<close> reads
  them: the result is negative, zero or positive as the first string is before, equal
  to or after the second in the lexicographic order of the code units; a proper prefix
  comes first, and the result is zero exactly when the strings are equal.
\<close>

theorem DefaultSort_compares_code_units:
  "DefaultSort toStr None None = Num 0 \<and>
   DefaultSort toStr None (Some y) = Num 1 \<and>
   DefaultSort toStr (Some x) None = Num (- 1) \<and>
   (\<exists>c. DefaultSort toStr (Some x) (Some y) = Num c \<and>
        (c = 0 \<longleftrightarrow> toStr x = toStr y) \<and>
        (c < 0 \<longleftrightarrow> lex_less (toStr x) (toStr y)) \<and>
        (c > 0 \<longleftrightarrow> lex_less (toStr y) (toStr x)) \<and>
        (\<forall>zs. zs \<noteq> [] \<and> toStr y = toStr x @ zs \<longrightarrow> c < 0))"
proof -
  have "\<exists>c. DefaultSort toStr (Some x) (Some y) = Num c \<and>
        (c = 0 \<longleftrightarrow> toStr x = toStr y) \<and>
        (c < 0 \<longleftrightarrow> lex_less (toStr x) (toStr y)) \<and>
        (c > 0 \<longleftrightarrow> lex_less (toStr y) (toStr x))"
  proof (cases "toStr x = toStr y")
    case True
    then have "DefaultSort toStr (Some x) (Some y) = Num 0"
      by (simp add: DefaultSort_def Let_def)
    then show ?thesis using True lex_less_irrefl by auto
  next
    case False
    then have xy: "x \<noteq> y" by auto
    obtain c where c: "DefaultSort toStr (Some x) (Some y) = Num c"
       "c < 0 \<longrightarrow> lex_less (toStr x) (toStr y)" "c > 0 \<longrightarrow> lex_less (toStr y) (toStr x)" "c \<noteq> 0"
      using DefaultSort_strings [OF False] False xy
      by (auto simp add: DefaultSort_def Let_def)
    show ?thesis using c False lex_less_asym [of "toStr x" "toStr y"]
      by (intro exI [of _ c]) (auto simp: not_less)
  qed
  then obtain c where c: "DefaultSort toStr (Some x) (Some y) = Num c"
        "c = 0 \<longleftrightarrow> toStr x = toStr y"
        "c < 0 \<longleftrightarrow> lex_less (toStr x) (toStr y)"
        "c > 0 \<longleftrightarrow> lex_less (toStr y) (toStr x)" by blast
  have p: "\<forall>zs. zs \<noteq> [] \<and> toStr y = toStr x @ zs \<longrightarrow> c < 0"
    using c(3) lex_less_append by metis
  have u: "DefaultSort toStr None None = Num 0" "DefaultSort toStr None (Some y) = Num 1"
      "DefaultSort toStr (Some x) None = Num (- 1)"
    by (simp_all add: DefaultSort_def)
  show ?thesis
    by (intro conjI exI [of _ c]) (use u c p in blast)+
qed

theorem DefaultSort_compares_code_units_witness:
  "[0x62 :: 16 word] \<noteq> [] \<and> [0x61, 0x62] = [0x61 :: 16 word] @ [0x62] \<and>
   DefaultSort id (Some [0x61]) (Some [0x61, 0x62]) = Num (- 1) \<and>
   lex_less [0x61 :: 16 word] [0x61, 0x62]"
  using DefaultSort_compares_code_units [of id "[0x61, 0x62]" "[0x61]"]
  by (simp add: DefaultSort_def DefaultSort_loop.simps charCodeAt_def minus_number_def Let_def)

text \<open>
  C9 as stated, by code points, fails: the one-unit string \<open>U+FF5E\<close> is before the
  surrogate pair of \<open>U+1F600\<close> by code points, and \<open>DefaultSort\<close> puts it after, since the
  unit \<open>0xFF5E\<close> is above the high surrogate \<open>0xD83D\<close>.
\<close>

theorem DefaultSort_code_points_counterexample:
  "DefaultSort id (Some [0xFF5E]) (Some [0xD83D, 0xDE00]) = Num 10017 \<and>
   code_points [0xFF5E] = [65374] \<and> code_points [0xD83D, 0xDE00] = [128512] \<and>
   lex_less (code_points [0xFF5E]) (code_points [0xD83D, 0xDE00])"
  by (simp add: DefaultSort_def DefaultSort_loop.simps charCodeAt_def minus_number_def Let_def)

subsection \<open>Sorting with a consistent compare function\<close>

lemma set_sort_insert: "set (sort_insert f x ys) = insert x (set ys)"
  using mset_sort_insert [of f x ys] by (metis set_mset_add_mset_insert set_mset_mset)

lemma sorted_wrt_sort_insert:
  assumes tot: "\<And>x y. cle f x y \<or> cle f y x"
    and trans: "\<And>x y z. cle f x y \<Longrightarrow> cle f y z \<Longrightarrow> cle f x z"
  shows "sorted_wrt (cle f) ys \<Longrightarrow> sorted_wrt (cle f) (sort_insert f x ys)"
proof (induction ys)
  case Nil
  then show ?case by simp
next
  case (Cons y ys)
  show ?case
  proof (cases "cle f x y")
    case True
    then have "\<forall>z\<in>set ys. cle f x z" using Cons.prems trans by auto
    then show ?thesis using True Cons.prems by (simp add: cle_def)
  next
    case False
    then have "cle f y x" using tot by blast
    then show ?thesis using False Cons by (auto simp: cle_def set_sort_insert)
  qed
qed

lemma sorted_wrt_Array_sort:
  assumes tot: "\<And>x y. cle f x y \<or> cle f y x"
    and trans: "\<And>x y z. cle f x y \<Longrightarrow> cle f y z \<Longrightarrow> cle f x z"
  shows "sorted_wrt (cle f) (Array_sort f xs)"
proof (induction xs)
  case Nil
  then show ?case by (simp add: Array_sort_def)
next
  case (Cons x xs)
  then show ?case
    using sorted_wrt_sort_insert [of f "Array_sort f xs" x, OF tot trans]
    by (simp add: Array_sort_def)
qed

lemma Array_sort_numeric: "Array_sort (\<lambda>a b. Num (a - b)) (xs :: int list) = sort xs"
proof -
  let ?f = "\<lambda>a b :: int. Num (a - b)"
  have c: "cle ?f = (\<le>)" by (intro ext) (simp add: cle_def SortCompare_def)
  have "sorted_wrt (cle ?f) (Array_sort ?f xs)"
    by (rule sorted_wrt_Array_sort) (auto simp: cle_def SortCompare_def)
  then have "sorted (Array_sort ?f xs)" by (simp add: c)
  then show ?thesis
    using properties_for_sort [of "Array_sort ?f xs" xs] by (simp add: mset_Array_sort)
qed

subsection \<open>Removing by index\<close>

lemma nths_cong_length:
  "(\<And>k. k < length xs \<Longrightarrow> k \<in> A \<longleftrightarrow> k \<in> B) \<Longrightarrow> nths xs A = nths xs B"
  unfolding nths_def
  by (rule arg_cong [where f = "map fst"], rule filter_cong) (auto simp: set_zip)

lemma removeAll_loop_ok:
  "sorted_wrt (<) xs \<Longrightarrow> \<forall>x\<in>set xs. i \<le> x \<and> x - i < int (length (array s)) \<Longrightarrow>
   removeAll_loop s xs i acc =
     (Inr (acc @ map (\<lambda>x. obj (array s ! nat (x - i))) xs),
      s\<lparr>array := nths (array s) {k. int k + i \<notin> set xs}\<rparr>)"
proof (induction xs arbitrary: s i acc)
  case Nil
  then show ?case by (simp add: nths_all)
next
  case (Cons x xs)
  define A where "A = array s"
  define p where "p = nat (x - i)"
  define s' where "s' = s\<lparr>array := remove_at p A\<rparr>"
  have px: "int p = x - i" and pl: "p < length A" using Cons.prems by (auto simp: p_def A_def)
  have gt: "\<forall>y\<in>set xs. x < y" using Cons.prems by simp
  have len': "length (array s') = length A - 1"
    using pl by (simp add: s'_def remove_at_def)
  have pre: "\<forall>y\<in>set xs. i + 1 \<le> y \<and> y - (i + 1) < int (length (array s'))"
    using Cons.prems gt pl len' by (auto simp: A_def)
  have step: "removeAll_loop s (x # xs) i acc = removeAll_loop s' xs (i + 1) (acc @ [obj (A ! p)])"
    using Cons.prems by (simp add: Let_def s'_def p_def A_def)
  have IH: "removeAll_loop s' xs (i + 1) (acc @ [obj (A ! p)]) =
     (Inr ((acc @ [obj (A ! p)]) @ map (\<lambda>y. obj (array s' ! nat (y - (i + 1)))) xs),
      s'\<lparr>array := nths (array s') {k. int k + (i + 1) \<notin> set xs}\<rparr>)"
    using Cons.IH [OF _ pre] Cons.prems by simp
  have nth': "\<And>y. y \<in> set xs \<Longrightarrow> array s' ! nat (y - (i + 1)) = A ! nat (y - i)"
  proof -
    fix y assume y: "y \<in> set xs"
    then have "x < y" using gt by simp
    then have "p \<le> nat (y - (i + 1))" using px by linarith
    moreover have "nat (y - (i + 1)) + 1 = nat (y - i)" using \<open>x < y\<close> px by linarith
    moreover have "nat (y - i) < length A" using Cons.prems y by (auto simp: A_def)
    ultimately show "array s' ! nat (y - (i + 1)) = A ! nat (y - i)"
      using pl by (simp add: s'_def remove_at_def nth_append min_def)
  qed
  define T where "T = take p A"
  define D where "D = drop (Suc p) A"
  define B where "B = {k. int k + i \<notin> set (x # xs)}"
  define B' where "B' = {k. int k + (i + 1) \<notin> set xs}"
  have split: "A = T @ A ! p # D"
    using pl by (simp add: T_def D_def id_take_nth_drop [symmetric])
  have lt: "length T = p" using pl by (simp add: T_def)
  have arr': "array s' = T @ D" by (simp add: s'_def remove_at_def T_def D_def)
  have t1: "nths T B' = T"
    using gt px lt by (intro nths_all) (auto simp: B'_def)
  have t2: "nths T B = T"
    using gt px lt by (intro nths_all) (auto simp: B_def)
  have mid: "p \<notin> B" using px by (simp add: B_def)
  have d: "nths D {j. j + p \<in> B'} = nths D {j. Suc j + p \<in> B}"
  proof (intro nths_cong_length)
    fix k
    have e: "int (k + p) + (i + 1) = int (Suc k + p) + i" by simp
    have n: "int (Suc k + p) + i \<noteq> x" using px by simp
    show "k \<in> {j. j + p \<in> B'} \<longleftrightarrow> k \<in> {j. Suc j + p \<in> B}"
      unfolding mem_Collect_eq B_def B'_def e set_simps using n by blast
  qed
  have "nths (array s') B' = nths T B' @ nths D {j. j + p \<in> B'}"
    unfolding arr' by (simp add: nths_append lt)
  also have "\<dots> = T @ nths D {j. Suc j + p \<in> B}"
    by (simp only: t1 d)
  also have "\<dots> = nths T B @ nths (A ! p # D) {j. j + p \<in> B}"
    using mid by (simp add: t2 nths_Cons)
  also have "\<dots> = nths (T @ A ! p # D) B"
    by (simp add: nths_append lt)
  finally have rem: "nths (array s') {k. int k + (i + 1) \<notin> set xs}
      = nths A {k. int k + i \<notin> set (x # xs)}"
    using split by (simp add: B_def B'_def)
  show ?case
    unfolding step IH rem
    using nth' by (simp add: s'_def A_def p_def)
qed


lemma removeAll_loop_oob:
  "sorted xs \<Longrightarrow> \<exists>x\<in>set xs. x - i < 0 \<or> x - i \<ge> int (length (array s)) \<Longrightarrow>
   \<exists>j hi. fst (removeAll_loop s xs i acc) = Inl (OutOfBounds j hi)"
proof (induction xs arbitrary: s i acc)
  case Nil
  then show ?case by simp
next
  case (Cons x xs)
  show ?case
  proof (cases "x - i < 0 \<or> x - i \<ge> int (length (array s))")
    case True
    then show ?thesis by (auto simp: oob_def)
  next
    case False
    define s' where "s' = s\<lparr>array := remove_at (nat (x - i)) (array s)\<rparr>"
    have len': "int (length (array s')) = int (length (array s)) - 1"
      using False by (auto simp: s'_def remove_at_def)
    obtain y where y: "y \<in> set xs" "y - i < 0 \<or> y - i \<ge> int (length (array s))"
      using Cons.prems(2) False by auto
    have "x \<le> y" using Cons.prems(1) y(1) by simp
    then have "y - (i + 1) \<ge> int (length (array s'))" using y(2) False len' by linarith
    then have bad: "\<exists>z\<in>set xs. z - (i + 1) < 0 \<or> z - (i + 1) \<ge> int (length (array s'))"
      using y(1) by blast
    have "sorted xs" using Cons.prems(1) by simp
    from Cons.IH [OF this bad]
    show ?thesis using False by (simp add: Let_def s'_def)
  qed
qed

text \<open>
  C6, amended. For a list of pairwise distinct indices, each inside the sorted view,
  \<open>removeAll\<close> removes exactly the elements at those indices from the sorted view and
  returns their payloads in ascending order of the indices (the loop walks the sorted
  indices and corrects each by the number of elements already removed). If some index
  is outside the sorted view, the call raises the out-of-bounds \<open>RangeError\<close>.
\<close>

theorem removeAll_distinct_indices:
  "(distinct indices \<and> (\<forall>i\<in>set indices. 0 \<le> i \<and> i < int (length (array s))) \<longrightarrow>
      removeAll_method ocf s indices =
        (Inr (map (\<lambda>i. fst (toArray ocf s) ! nat i) (sort indices)),
         (snd (toArray ocf s))
           \<lparr>array := nths (array (snd (toArray ocf s))) {k. int k \<notin> set indices}\<rparr>)) \<and>
   ((\<exists>i\<in>set indices. i < 0 \<or> i \<ge> int (length (array s))) \<longrightarrow>
      (\<exists>j hi. fst (removeAll_method ocf s indices) = Inl (OutOfBounds j hi)))"
proof (intro conjI impI)
  define s1 where "s1 = sort_private ocf s"
  have len: "length (array s1) = length (array s)"
    by (simp add: s1_def sort_private_def Let_def length_Array_sort)
  have rm: "removeAll_method ocf s indices = removeAll_loop s1 (sort indices) 0 []"
    by (simp add: removeAll_method_def Array_sort_numeric s1_def)
  {
    assume a: "distinct indices \<and> (\<forall>i\<in>set indices. 0 \<le> i \<and> i < int (length (array s)))"
    have st: "sorted_wrt (<) (sort indices)"
      using a by (simp add: strict_sorted_iff)
    have rg: "\<forall>x\<in>set (sort indices). 0 \<le> x \<and> x - 0 < int (length (array s1))"
      using a len by simp
    have nn: "\<And>i. i \<in> set indices \<Longrightarrow> nat i < length (array s1)"
      using a len by auto
    have "map (\<lambda>x. obj (array s1 ! nat (x - 0))) (sort indices)
        = map (\<lambda>i. fst (toArray ocf s) ! nat i) (sort indices)"
      using nn by (simp add: toArray_def unwrap_def s1_def [symmetric] Let_def)
    then show "removeAll_method ocf s indices =
        (Inr (map (\<lambda>i. fst (toArray ocf s) ! nat i) (sort indices)),
         (snd (toArray ocf s))
           \<lparr>array := nths (array (snd (toArray ocf s))) {k. int k \<notin> set indices}\<rparr>)"
      unfolding rm removeAll_loop_ok [OF st rg]
      by (simp add: toArray_def s1_def [symmetric] Let_def)
  }
  {
    assume "\<exists>i\<in>set indices. i < 0 \<or> i \<ge> int (length (array s))"
    then have "\<exists>x\<in>set (sort indices). x - 0 < 0 \<or> x - 0 \<ge> int (length (array s1))"
      using len by simp
    from removeAll_loop_oob [OF sorted_sort this]
    show "\<exists>j hi. fst (removeAll_method ocf s indices) = Inl (OutOfBounds j hi)"
      unfolding rm .
  }
qed

theorem removeAll_distinct_indices_witness:
  "distinct [2, 0 :: int] \<and> length (array (constructor (Some [30, 10, 20 :: int]))) = 3 \<and>
   fst (removeAll_method NumericSort (constructor (Some [30, 10, 20])) [2, 0]) = Inr [10, 30] \<and>
   map obj (array (snd (removeAll_method NumericSort (constructor (Some [30, 10, 20])) [2, 0]))) = [20] \<and>
   (\<exists>j hi. fst (removeAll_method NumericSort (constructor (Some [30, 10, 20])) [1, 3]) = Inl (OutOfBounds j hi))"
proof -
  let ?s = "constructor (Some [30, 10, 20 :: int])"
  have a: "distinct [2, 0 :: int] \<and> (\<forall>i\<in>set [2, 0 :: int]. 0 \<le> i \<and> i < int (length (array ?s)))"
    by (simp add: model_eval)
  have b: "\<exists>i\<in>set [1, 3 :: int]. i < 0 \<or> i \<ge> int (length (array ?s))"
    by (simp add: model_eval)
  have inst: "removeAll_method NumericSort ?s [2, 0] =
        (Inr (map (\<lambda>i. fst (toArray NumericSort ?s) ! nat i) (sort [2, 0])),
         (snd (toArray NumericSort ?s))
           \<lparr>array := nths (array (snd (toArray NumericSort ?s))) {k. int k \<notin> set [2, 0]}\<rparr>)"
    using a removeAll_distinct_indices [of "[2, 0]" ?s NumericSort] by blast
  have t: "fst (toArray NumericSort ?s) = [10, 20, 30]"
    by (simp add: model_eval)
  have r: "fst (removeAll_method NumericSort ?s [2, 0]) = Inr [10, 30]"
    unfolding inst by (simp add: t)
  have "map obj (array (snd (removeAll_method NumericSort ?s [2, 0])))
      = map obj (nths (array (snd (toArray NumericSort ?s))) {k. int k \<notin> set [2, 0]})"
    unfolding inst by simp
  also have "\<dots> = [20]"
    by (simp add: model_eval nths_Cons)
  finally have m: "map obj (array (snd (removeAll_method NumericSort ?s [2, 0]))) = [20]" .
  have c: "\<exists>j hi. fst (removeAll_method NumericSort ?s [1, 3]) = Inl (OutOfBounds j hi)"
    using b removeAll_distinct_indices [of "[1, 3]" ?s NumericSort] by blast
  have l: "length (array ?s) = 3" by (simp add: model_eval)
  show ?thesis using a l r m c by blast
qed

text \<open>
  C6 as stated, with the payloads returned in the order of the request, fails: asked for
  the indices 2 and 0 of the sorted view 10, 20, 30, \<open>removeAll\<close> returns 10 before 30.
\<close>

theorem removeAll_order_counterexample:
  "fst (removeAll_method NumericSort (constructor (Some [10, 20, 30])) [2, 0]) = Inr [10, 30] \<and>
   fst (get NumericSort (constructor (Some [10, 20, 30])) 2) = Inr 30 \<and>
   fst (get NumericSort (constructor (Some [10, 20, 30])) 0) = Inr 10"
  by (simp add: removeAll_method_def remove_at_def get_def model_eval)

subsection \<open>Consistent compare functions\<close>

lemma consistent_Num: "consistent f \<Longrightarrow> \<exists>c. f a b = Num c"
  unfolding consistent_def by (cases "f a b") blast+

lemma consistent_flip: "consistent f \<Longrightarrow> sgn (SortCompare f a b) = - sgn (SortCompare f b a)"
  unfolding consistent_def by blast

lemma sgn_flip_cases:
  fixes u v :: int
  assumes "sgn u = - sgn v"
  shows "(u < 0 \<longleftrightarrow> v > 0) \<and> (u = 0 \<longleftrightarrow> v = 0) \<and> (u \<le> 0 \<longleftrightarrow> v \<ge> 0)"
  using assms by (cases "u < 0"; cases "u = 0"; cases "v < 0"; cases "v = 0") (simp_all add: sgn_if)

lemma consistent_neg_flip: "consistent f \<Longrightarrow> SortCompare f a b < 0 \<longleftrightarrow> SortCompare f b a > 0"
  using sgn_flip_cases [OF consistent_flip, of f a b] by blast

lemma consistent_zero_flip: "consistent f \<Longrightarrow> SortCompare f a b = 0 \<longleftrightarrow> SortCompare f b a = 0"
  using sgn_flip_cases [OF consistent_flip, of f a b] by blast

lemma consistent_le_flip: "consistent f \<Longrightarrow> SortCompare f a b \<le> 0 \<longleftrightarrow> SortCompare f b a \<ge> 0"
  using sgn_flip_cases [OF consistent_flip, of f a b] by blast

lemma consistent_total: "consistent f \<Longrightarrow> cle f x y \<or> cle f y x"
  using consistent_le_flip [of f x y] unfolding cle_def by linarith

lemma consistent_trans: "consistent f \<Longrightarrow> cle f x y \<Longrightarrow> cle f y z \<Longrightarrow> cle f x z"
  unfolding consistent_def by blast

lemma consistent_not_less:
  assumes "consistent f" "\<not> SortCompare f a c < 0"
  shows "cle f c a"
proof -
  have "SortCompare f a c \<ge> 0" using assms(2) by linarith
  then have "SortCompare f c a \<le> 0" using consistent_le_flip [OF assms(1), of c a] by blast
  then show ?thesis unfolding cle_def .
qed

lemma consistent_cle_not_less:
  assumes "consistent f" "cle f b a"
  shows "\<not> SortCompare f a b < 0"
proof -
  have "SortCompare f b a \<le> 0" using assms(2) unfolding cle_def .
  then have "SortCompare f a b \<ge> 0" using consistent_le_flip [OF assms(1), of b a] by blast
  then show ?thesis by linarith
qed

lemma consistent_less_le_trans:
  assumes "consistent f" "SortCompare f a b < 0" "cle f b c"
  shows "SortCompare f a c < 0"
proof (rule ccontr)
  assume "\<not> SortCompare f a c < 0"
  then have "cle f c a" using consistent_not_less [OF assms(1), of a c] by simp
  then have "cle f b a" using consistent_trans [OF assms(1) assms(3)] by simp
  then show False using assms(2) consistent_cle_not_less [OF assms(1), of b a] by simp
qed

lemma consistent_le_less_trans:
  assumes "consistent f" "cle f a b" "SortCompare f b c < 0"
  shows "SortCompare f a c < 0"
proof (rule ccontr)
  assume "\<not> SortCompare f a c < 0"
  then have "cle f c a" using consistent_not_less [OF assms(1), of a c] by simp
  then have "cle f c b" using consistent_trans [OF assms(1) _ assms(2), of c] by simp
  then show False using assms(3) consistent_cle_not_less [OF assms(1), of c b] by simp
qed

lemma consistent_NumericSort: "consistent NumericSort"
  unfolding consistent_def cle_def SortCompare_def NumericSort_def
  by (auto simp: sgn_if)


lemma SortCompare_compareFn:
  "SortCompare (compareFn ocf) a b =
     (if SortCompare ocf (obj a) (obj b) = 0 \<and> ocf (obj a) (obj b) \<noteq> NaN
      then index a - index b else SortCompare ocf (obj a) (obj b))"
  by (cases "ocf (obj a) (obj b)") (auto simp: SortCompare_def compareFn_def)

lemma cle_compareFn:
  "consistent ocf \<Longrightarrow>
   cle (compareFn ocf) a b \<longleftrightarrow>
     SortCompare ocf (obj a) (obj b) < 0 \<or>
     (SortCompare ocf (obj a) (obj b) = 0 \<and> index a \<le> index b)"
  using consistent_Num [of ocf "obj a" "obj b"]
  by (auto simp: cle_def SortCompare_compareFn)

lemma cle_compareFn_total:
  "consistent ocf \<Longrightarrow> cle (compareFn ocf) x y \<or> cle (compareFn ocf) y x"
  using consistent_neg_flip [of ocf "obj x" "obj y"] consistent_zero_flip [of ocf "obj x" "obj y"]
  by (auto simp: cle_compareFn)

lemma cle_compareFn_trans:
  assumes c: "consistent ocf" and xy: "cle (compareFn ocf) x y" and yz: "cle (compareFn ocf) y z"
  shows "cle (compareFn ocf) x z"
proof -
  define a where "a = SortCompare ocf (obj x) (obj y)"
  define b where "b = SortCompare ocf (obj y) (obj z)"
  define d where "d = SortCompare ocf (obj x) (obj z)"
  have xy': "a < 0 \<or> (a = 0 \<and> index x \<le> index y)"
    using xy cle_compareFn [OF c, of x y] unfolding a_def by blast
  have yz': "b < 0 \<or> (b = 0 \<and> index y \<le> index z)"
    using yz cle_compareFn [OF c, of y z] unfolding b_def by blast
  have le1: "cle ocf (obj x) (obj y)" using xy' unfolding cle_def a_def by linarith
  have le2: "cle ocf (obj y) (obj z)" using yz' unfolding cle_def b_def by linarith
  have goal: "d < 0 \<or> (d = 0 \<and> index x \<le> index z)"
  proof (cases "a < 0 \<or> b < 0")
    case True
    then have "d < 0"
    proof
      assume "a < 0"
      then show ?thesis
        using consistent_less_le_trans [OF c _ le2, of "obj x"] unfolding a_def d_def by blast
    next
      assume "b < 0"
      then show ?thesis
        using consistent_le_less_trans [OF c le1, of "obj z"] unfolding b_def d_def by blast
    qed
    then show ?thesis by blast
  next
    case False
    then have z: "a = 0" "b = 0" "index x \<le> index y" "index y \<le> index z"
      using xy' yz' by auto
    have "SortCompare ocf (obj y) (obj x) = 0"
      using z(1) consistent_zero_flip [OF c, of "obj x" "obj y"] unfolding a_def by blast
    then have ge1: "cle ocf (obj y) (obj x)" unfolding cle_def by linarith
    have "SortCompare ocf (obj z) (obj y) = 0"
      using z(2) consistent_zero_flip [OF c, of "obj y" "obj z"] unfolding b_def by blast
    then have ge2: "cle ocf (obj z) (obj y)" unfolding cle_def by linarith
    have "cle ocf (obj x) (obj z)" by (rule consistent_trans [OF c le1 le2])
    then have "d \<le> 0" unfolding cle_def d_def .
    moreover have "cle ocf (obj z) (obj x)" by (rule consistent_trans [OF c ge2 ge1])
    then have "d \<ge> 0"
      using consistent_le_flip [OF c, of "obj z" "obj x"] unfolding cle_def d_def by blast
    ultimately have "d = 0" by linarith
    then show ?thesis using z by linarith
  qed
  show ?thesis
    using goal cle_compareFn [OF c, of x z] unfolding d_def by blast
qed


subsection \<open>The sort pass and the flags\<close>

lemma sorted_sort_private:
  assumes "consistent ocf" "flags_sound ocf s"
  shows "sorted_wrt (cle (compareFn ocf)) (array (sort_private ocf s))"
proof (cases "sorted_flag s")
  case True
  then show ?thesis using assms(2) by (simp add: sort_private_def flags_sound_def Let_def)
next
  case False
  have "sorted_wrt (cle (compareFn ocf)) (Array_sort (compareFn ocf) (array s))"
    using cle_compareFn_total [OF assms(1)] cle_compareFn_trans [OF assms(1)]
    by (intro sorted_wrt_Array_sort) blast+
  then show ?thesis using False assms(2) by (simp add: sort_private_def flags_sound_def Let_def)
qed


lemma sort_private_idem: "sorted_flag s \<Longrightarrow> sort_private ocf s = s"
  by (simp add: sort_private_def Let_def)

lemma sorted_flag_sort_private [simp]: "sorted_flag (sort_private ocf s)"
  by (simp add: sort_private_def Let_def)

lemma sort_private_twice [simp]: "sort_private ocf (sort_private ocf s) = sort_private ocf s"
  by (simp add: sort_private_idem)

lemma sorted_payloads:
  "sorted_wrt (cle (compareFn ocf)) xs \<Longrightarrow> sorted_wrt (cle ocf) (map obj xs)"
proof -
  have "\<And>a b. cle (compareFn ocf) a b \<Longrightarrow> cle ocf (obj a) (obj b)"
    by (auto simp: cle_def SortCompare_compareFn split: if_splits)
  then show "sorted_wrt (cle (compareFn ocf)) xs \<Longrightarrow> sorted_wrt (cle ocf) (map obj xs)"
    by (simp add: sorted_wrt_map) (erule sorted_wrt_mono_rel [rotated], blast)
qed

lemma renumber_fold_flags:
  "sorting (fold renumber_step ps s) = sorting s \<and> sorted_flag (fold renumber_step ps s) = sorted_flag s"
  by (induction ps arbitrary: s) (auto simp: renumber_step_def)

lemma reduceInsertionOrders_flags:
  "sorting (reduceInsertionOrders s) = sorting s \<and>
   sorted_flag (reduceInsertionOrders s) = sorted_flag s"
  by (simp add: reduceInsertionOrders_def Let_def renumber_fold_flags)

lemma wrapOne_flags:
  "sorting (snd (wrapOne s ob e k)) = sorting s \<and> sorted_flag (snd (wrapOne s ob e k)) = sorted_flag s"
  by (simp add: wrapOne_def Let_def reduceInsertionOrders_flags)

lemma addAll_loop_flags:
  "sorting (snd (addAll_loop s items)) = sorting s \<and>
   sorted_flag (snd (addAll_loop s items)) = sorted_flag s"
proof (induction items arbitrary: s)
  case Nil
  then show ?case by simp
next
  case (Cons item items)
  obtain node s1 where w: "wrapOne s item False None = (node, s1)" by (cases "wrapOne s item False None")
  have f: "sorting s1 = sorting s" "sorted_flag s1 = sorted_flag s"
    using wrapOne_flags [of s item False None] w by simp_all
  show ?case
  proof (cases "Array_push (array s1) node")
    case (Inl e)
    then show ?thesis using w f by simp
  next
    case (Inr arr)
    then show ?thesis using w f Cons.IH [of "s1\<lparr>array := arr\<rparr>"] by simp
  qed
qed

lemma addAll_flags:
  "sorting (snd (addAll s items)) = sorting s \<and> \<not> sorted_flag (snd (addAll s items))"
  using addAll_loop_flags [of "s\<lparr>sorted_flag := False\<rparr>" items]
  by (auto simp: addAll_def Let_def split: prod.splits option.splits)

lemma flags_sound_addAll: "flags_sound ocf s \<Longrightarrow> flags_sound ocf (snd (addAll s items))"
  using addAll_flags [of s items] by (simp add: flags_sound_def)

lemma flags_sound_addAll_calls:
  "flags_sound ocf s \<Longrightarrow> flags_sound ocf (addAll_calls s itemss)"
  unfolding addAll_calls_def
  by (induction itemss arbitrary: s) (simp_all add: flags_sound_addAll)


subsection \<open>The state after a search\<close>

lemma Array_sort_Nil [simp]: "Array_sort f [] = []"
  by (simp add: Array_sort_def)

lemma search_state_sorted: "sorted_flag s \<Longrightarrow> snd (search ocf s ob mn mx) = s"
  by (simp add: search_def Let_def sort_private_idem)

lemma search_Inr_array:
  "fst (search ocf s ob mn mx) = Inr r \<Longrightarrow>
   array (snd (search ocf s ob mn mx)) = array (sort_private ocf s)"
  by (auto simp: search_def Let_def sort_private_def split: if_splits)

lemma searchAll_state_sorted:
  assumes "sorted_flag s"
  shows "snd (searchAll ocf s ob mn mx) = s"
proof -
  define min' where "min' = (case mn of None \<Rightarrow> 0 | Some m \<Rightarrow> m)"
  define max' where "max' = (case mx of None \<Rightarrow> int (length (array s)) - 1 | Some m \<Rightarrow> m)"
  obtain r s1 where e: "search ocf s ob (Some min') (Some max') = (r, s1)"
    by (cases "search ocf s ob (Some min') (Some max')")
  have s1: "s1 = s" using search_state_sorted [OF assms, of ocf ob "Some min'" "Some max'"] e by simp
  show ?thesis
    unfolding searchAll_def Let_def min'_def [symmetric] max'_def [symmetric] e s1
    by (cases r) (auto split: sum.splits prod.splits simp del: searchAll_up.simps searchAll_down.simps)
qed

lemma searchExact_state_sorted:
  assumes "sorted_flag s"
  shows "snd (searchExact ocf s ob mn mx) = s"
proof -
  obtain r s1 where e: "searchAll ocf s ob mn mx = (r, s1)" by (cases "searchAll ocf s ob mn mx")
  have s1: "s1 = s" using searchAll_state_sorted [OF assms, of ocf ob mn mx] e by simp
  show ?thesis unfolding searchExact_def e s1 by (cases r) auto
qed

lemma searchNth_state_sorted:
  assumes "sorted_flag s"
  shows "snd (searchNth ocf s ob n mn mx exact) = s"
proof (cases exact)
  case True
  obtain r s1 where e: "searchExact ocf s ob mn mx = (r, s1)" by (cases "searchExact ocf s ob mn mx")
  have s1: "s1 = s" using searchExact_state_sorted [OF assms, of ocf ob mn mx] e by simp
  show ?thesis unfolding searchNth_def e s1 using True
    by (cases r; cases n) (auto simp: Let_def)
next
  case False
  obtain r s1 where e: "search ocf s ob mn mx = (r, s1)" by (cases "search ocf s ob mn mx")
  have s1: "s1 = s" using search_state_sorted [OF assms, of ocf ob mn mx] e by simp
  show ?thesis unfolding searchNth_def e s1 using False
    by (cases r; cases n)
      (auto simp: Let_def split: sum.splits prod.splits simp del: scan_last.simps scan_first.simps)
qed

lemma findNth_state: "snd (findNth ocf s ob n exact) = sort_private ocf s"
proof -
  let ?s0 = "sort_private ocf s"
  obtain r s1 where e: "searchNth ocf ?s0 ob n None None exact = (r, s1)"
    by (cases "searchNth ocf ?s0 ob n None None exact")
  have s1: "s1 = ?s0" using searchNth_state_sorted [of ?s0 ocf ob n None None exact] e by simp
  show ?thesis unfolding findNth_def e s1
    by (cases r) (auto split: option.splits prod.splits)
qed

lemma findAll_state: "snd (findAll ocf s ob exact) = sort_private ocf s"
proof -
  let ?s0 = "sort_private ocf s"
  obtain r s1 where e: "(if exact then searchExact ocf ?s0 ob None None
            else searchAll ocf ?s0 ob None None) = (r, s1)"
    by (cases "if exact then searchExact ocf ?s0 ob None None else searchAll ocf ?s0 ob None None")
  have s1: "s1 = ?s0"
    using searchExact_state_sorted [of ?s0 ocf ob None None]
      searchAll_state_sorted [of ?s0 ocf ob None None] e
    by (cases exact) simp_all
  show ?thesis unfolding findAll_def e s1 by (cases r) auto
qed

lemma findNearest_state: "snd (findNearest ocf s ob) = snd (search ocf s ob None None)"
proof -
  obtain r s1 where e: "search ocf s ob None None = (r, s1)" by (cases "search ocf s ob None None")
  show ?thesis unfolding findNearest_def e
    by (cases r) (auto split: option.splits prod.splits sum.splits number.splits)
qed

lemma search_state_cases:
  "snd (search ocf s ob mn mx) = s \<or> snd (search ocf s ob mn mx) = sort_private ocf s"
  by (simp add: search_def Let_def)

lemma search_state_array:
  "array (snd (search ocf s ob mn mx)) = array s \<or>
   array (snd (search ocf s ob mn mx)) = array (sort_private ocf s)"
  using search_state_cases [of ocf s ob mn mx] by auto

lemma search_None_array:
  "array (snd (search ocf s ob None None)) = array (sort_private ocf s)"
  by (simp add: search_def Let_def sort_private_def)

subsection \<open>Reads after adding\<close>

lemma length_sort_private: "length (array (sort_private ocf s)) = length (array s)"
  by (simp add: sort_private_def Let_def length_Array_sort)

declare Generator_rest.simps [simp del]

lemma Generator_rest_drop:
  "k \<le> length (array s) \<Longrightarrow>
   Generator_rest \<lparr>position = k, finished = False\<rparr> s = Inr (map obj (drop k (array s)))"
proof (induction "length (array s) - k" arbitrary: k)
  case 0
  then have "k = length (array s)" by simp
  then show ?case by (subst Generator_rest.simps) (simp add: Generator_next_def)
next
  case (Suc m)
  then have lt: "k < length (array s)" by simp
  have nx: "Generator_next \<lparr>position = k, finished = False\<rparr> s =
      (Inr (Some (obj (array s ! k))), \<lparr>position = Suc k, finished = False\<rparr>)"
    using lt by (simp add: Generator_next_def Array_get_def)
  have IH: "Generator_rest \<lparr>position = Suc k, finished = False\<rparr> s
      = Inr (map obj (drop (Suc k) (array s)))"
    using Suc.hyps(1) [of "Suc k"] Suc.hyps(2) lt by simp
  show ?case
    by (subst Generator_rest.simps) (simp add: nx IH Cons_nth_drop_Suc [OF lt, symmetric])
qed

lemma search_fst_on_sorted:
  "fst (search ocf s ob mn mx) = fst (search ocf (sort_private ocf s) ob mn mx)"
  by (cases mn; cases mx)
    (simp_all add: search_def Let_def length_sort_private wrapOne_def del: search_loop.simps)

lemma search_runs_on_sorted:
  assumes "case mn of Some m \<Rightarrow> 0 \<le> m | None \<Rightarrow> True"
    and "case mx of Some m \<Rightarrow> 0 \<le> m \<and> m \<le> int (length (array s)) | None \<Rightarrow> True"
    and "array s \<noteq> []"
  shows "search ocf s ob mn mx =
     (search_loop ocf ob (array (sort_private ocf s))
        (case mn of Some m \<Rightarrow> m | None \<Rightarrow> 0)
        (case mx of Some m \<Rightarrow> m | None \<Rightarrow> int (length (array (sort_private ocf s))) - 1)
        ((case mx of Some m \<Rightarrow> m | None \<Rightarrow> int (length (array (sort_private ocf s))) - 1) div 2),
      sort_private ocf s)"
  using assms
  by (cases mn; cases mx)
    (simp_all add: search_def Let_def length_sort_private wrapOne_def del: search_loop.simps)

lemma findNth_on_sorted: "findNth ocf s ob n exact = findNth ocf (sort_private ocf s) ob n exact"
  by (simp add: findNth_def)

lemma findAll_on_sorted: "findAll ocf s ob exact = findAll ocf (sort_private ocf s) ob exact"
  by (simp add: findAll_def)

lemma findNearest_fst_on_sorted:
  "fst (findNearest ocf s ob) = fst (findNearest ocf (sort_private ocf s) ob)"
proof -
  let ?st = "sort_private ocf s"
  obtain r s1 where e1: "search ocf s ob None None = (r, s1)"
    by (cases "search ocf s ob None None")
  obtain r' s1' where e2: "search ocf ?st ob None None = (r', s1')"
    by (cases "search ocf ?st ob None None")
  have rr: "r' = r" using search_fst_on_sorted [of ocf s ob None None] e1 e2 by simp
  have a1: "array s1 = array ?st" using search_None_array [of ocf s ob] e1 by simp
  have a2: "array s1' = array ?st" using search_None_array [of ocf ?st ob] e2 by simp
  show ?thesis
    unfolding findNearest_def e1 e2 rr
    by (cases r)
      (auto simp: a1 a2 split: prod.splits option.splits sum.splits number.splits)
qed

text \<open>
  C1, amended. Take a collection whose flags tell the truth (every collection made by
  the constructor and changed by the methods is one, as long as the compare function is
  consistent) and any sequence of \<open>add\<close>/\<open>addAll\<close> calls. Every read that follows works on
  the backing array as the sort pass leaves it, and that array is sorted by
  \<open>this.compareFn\<close>: \<open>toArray\<close> and \<open>slice\<close> hand out its payloads, \<open>get\<close> the payload at the
  index; \<open>findNth\<close>, \<open>findAll\<close>, \<open>findNearest\<close> and \<open>search\<close> return what they return on the
  sorted collection and leave exactly this array behind, and a \<open>search\<close> that passes its
  checks is the loop over this array. Making an iterator sorts the collection, and the
  iterator yields the payloads of the sorted array when it is read to its end before
  the collection is changed again. In particular the snapshot of \<open>toArray\<close> is
  non-decreasing under the compare function of the payloads.
\<close>

theorem reads_observe_sorted_storage:
  assumes "consistent ocf" and "flags_sound ocf s"
  shows "let s' = addAll_calls s itemss; st = sort_private ocf s' in
     sorted_wrt (cle (compareFn ocf)) (array st) \<and>
     toArray ocf s' = (map obj (array st), st) \<and>
     sorted_wrt (cle ocf) (fst (toArray ocf s')) \<and>
     (0 \<le> i \<and> i < int (length (array s')) \<longrightarrow>
        get ocf s' i = (Inr (obj (array st ! nat i)), st)) \<and>
     slice_method ocf s' a b = (map obj (Array_slice (array st) a b), st) \<and>
     values_iter ocf s' = (\<lparr>position = 0, finished = False\<rparr>, st) \<and>
     Generator_rest (fst (values_iter ocf s')) st = Inr (map obj (array st)) \<and>
     snd (findNth ocf s' ob n exact) = st \<and>
     snd (findAll ocf s' ob exact) = st \<and>
     array (snd (findNearest ocf s' ob)) = array st \<and>
     (\<forall>r. fst (search ocf s' ob mn mx) = Inr r \<longrightarrow>
          array (snd (search ocf s' ob mn mx)) = array st) \<and>
     findNth ocf s' ob n exact = findNth ocf st ob n exact \<and>
     findAll ocf s' ob exact = findAll ocf st ob exact \<and>
     fst (findNearest ocf s' ob) = fst (findNearest ocf st ob) \<and>
     fst (search ocf s' ob mn mx) = fst (search ocf st ob mn mx) \<and>
     snd (search ocf st ob mn mx) = st \<and>
     ((case mn of Some m \<Rightarrow> 0 \<le> m | None \<Rightarrow> True) \<and>
      (case mx of Some m \<Rightarrow> 0 \<le> m \<and> m \<le> int (length (array s')) | None \<Rightarrow> True) \<and>
      array s' \<noteq> [] \<longrightarrow>
        search ocf s' ob mn mx =
          (search_loop ocf ob (array st)
             (case mn of Some m \<Rightarrow> m | None \<Rightarrow> 0)
             (case mx of Some m \<Rightarrow> m | None \<Rightarrow> int (length (array st)) - 1)
             ((case mx of Some m \<Rightarrow> m | None \<Rightarrow> int (length (array st)) - 1) div 2),
           st))"
proof -
  define s' where "s' = addAll_calls s itemss"
  define st where "st = sort_private ocf s'"
  have fs: "flags_sound ocf s'"
    unfolding s'_def by (rule flags_sound_addAll_calls [OF assms(2)])
  have 1: "sorted_wrt (cle (compareFn ocf)) (array st)"
    unfolding st_def by (rule sorted_sort_private [OF assms(1) fs])
  have 2: "toArray ocf s' = (map obj (array st), st)"
    by (simp add: toArray_def unwrap_def st_def Let_def)
  have 3: "sorted_wrt (cle ocf) (fst (toArray ocf s'))"
    unfolding 2 using sorted_payloads [OF 1] by simp
  have 4: "0 \<le> i \<and> i < int (length (array s')) \<longrightarrow>
        get ocf s' i = (Inr (obj (array st ! nat i)), st)"
    using length_sort_private [of ocf s']
    by (simp add: get_def Let_def Array_get_def st_def)
  have 5: "slice_method ocf s' a b = (map obj (Array_slice (array st) a b), st)"
    by (simp add: slice_method_def unwrap_def st_def Let_def)
  have 6: "values_iter ocf s' = (\<lparr>position = 0, finished = False\<rparr>, st)"
    by (simp add: values_iter_def st_def)
  have 60: "Generator_rest (fst (values_iter ocf s')) st = Inr (map obj (array st))"
    unfolding 6 using Generator_rest_drop [of 0 st] by simp
  have 7: "snd (findNth ocf s' ob n exact) = st"
    unfolding st_def by (rule findNth_state)
  have 8: "snd (findAll ocf s' ob exact) = st"
    unfolding st_def by (rule findAll_state)
  have 9: "array (snd (findNearest ocf s' ob)) = array st"
    unfolding st_def findNearest_state by (rule search_None_array)
  have 10: "\<forall>r. fst (search ocf s' ob mn mx) = Inr r \<longrightarrow>
          array (snd (search ocf s' ob mn mx)) = array st"
    unfolding st_def by (intro allI impI) (erule search_Inr_array)
  have 11: "findNth ocf s' ob n exact = findNth ocf st ob n exact"
    unfolding st_def by (rule findNth_on_sorted)
  have 12: "findAll ocf s' ob exact = findAll ocf st ob exact"
    unfolding st_def by (rule findAll_on_sorted)
  have 13: "fst (findNearest ocf s' ob) = fst (findNearest ocf st ob)"
    unfolding st_def by (rule findNearest_fst_on_sorted)
  have 14: "fst (search ocf s' ob mn mx) = fst (search ocf st ob mn mx)"
    unfolding st_def by (rule search_fst_on_sorted)
  have 15: "snd (search ocf st ob mn mx) = st"
    unfolding st_def by (rule search_state_sorted) simp
  have 16: "(case mn of Some m \<Rightarrow> 0 \<le> m | None \<Rightarrow> True) \<and>
      (case mx of Some m \<Rightarrow> 0 \<le> m \<and> m \<le> int (length (array s')) | None \<Rightarrow> True) \<and>
      array s' \<noteq> [] \<longrightarrow>
        search ocf s' ob mn mx =
          (search_loop ocf ob (array st)
             (case mn of Some m \<Rightarrow> m | None \<Rightarrow> 0)
             (case mx of Some m \<Rightarrow> m | None \<Rightarrow> int (length (array st)) - 1)
             ((case mx of Some m \<Rightarrow> m | None \<Rightarrow> int (length (array st)) - 1) div 2),
           st)"
    unfolding st_def using search_runs_on_sorted [of mn s' mx ocf ob] by blast
  show ?thesis
    unfolding Let_def s'_def [symmetric] st_def [symmetric]
    by (intro conjI) (fact 1 2 3 4 5 6 60 7 8 9 10 11 12 13 14 15 16)+
qed

lemma flags_sound_constructor_None: "flags_sound ocf (constructor None)"
  by (simp add: flags_sound_def constructor_def)

theorem reads_observe_sorted_storage_witness:
  "(0 \<le> (1 :: int) \<and> 1 < int (length (array (addAll_calls (constructor None) [[5, 3], [9, 1, 3 :: int]])))) \<and>
   toArray NumericSort (addAll_calls (constructor None) [[5, 3], [9, 1, 3]]) =
     ([1, 3, 3, 5, 9], sort_private NumericSort (addAll_calls (constructor None) [[5, 3], [9, 1, 3]])) \<and>
   sorted_wrt (cle NumericSort) [1, 3, 3, 5, 9] \<and>
   fst (get NumericSort (addAll_calls (constructor None) [[5, 3], [9, 1, 3]]) 1) = Inr 3 \<and>
   Generator_rest (fst (values_iter NumericSort (addAll_calls (constructor None) [[5, 3], [9, 1, 3]])))
     (snd (values_iter NumericSort (addAll_calls (constructor None) [[5, 3], [9, 1, 3]])))
     = Inr [1, 3, 3, 5, 9] \<and>
   fst (search NumericSort (addAll_calls (constructor None) [[5, 3], [9, 1, 3]]) 9 (Some 0) (Some 4))
     = Inr (4, True)"
proof -
  let ?s' = "addAll_calls (constructor None) [[5, 3], [9, 1, 3 :: int]]"
  let ?st = "sort_private NumericSort ?s'"
  have e: "map obj (array ?st) = [1, 3, 3, 5, 9]"
    by (simp add: addAll_calls_def addAll_def model_eval)
  have l: "0 \<le> (1 :: int) \<and> 1 < int (length (array ?s'))"
    by (simp add: addAll_calls_def addAll_def model_eval)
  have g: "obj (array ?st ! nat 1) = 3"
    by (simp add: addAll_calls_def addAll_def model_eval)
  note inst = reads_observe_sorted_storage [OF consistent_NumericSort flags_sound_constructor_None,
        of "[[5, 3], [9, 1, 3]]" 1 None None 9 None False "Some 0" "Some 4", unfolded Let_def]
  have t: "toArray NumericSort ?s' = ([1, 3, 3, 5, 9], ?st)"
    using inst e by simp
  have "sorted_wrt (cle NumericSort) (fst (toArray NumericSort ?s'))"
    using inst by blast
  then have sw: "sorted_wrt (cle NumericSort) [1, 3, 3, 5, 9]"
    unfolding t by simp
  have "get NumericSort ?s' 1 = (Inr (obj (array ?st ! nat 1)), ?st)"
    using inst l by blast
  then have gt: "fst (get NumericSort ?s' 1) = Inr 3"
    unfolding g by simp
  have v: "snd (values_iter NumericSort ?s') = ?st"
    using inst by simp
  have "Generator_rest (fst (values_iter NumericSort ?s')) ?st = Inr (map obj (array ?st))"
    using inst by blast
  then have it: "Generator_rest (fst (values_iter NumericSort ?s')) (snd (values_iter NumericSort ?s'))
      = Inr [1, 3, 3, 5, 9]"
    unfolding v e .
  have b: "(case Some (0 :: int) of Some m \<Rightarrow> 0 \<le> m | None \<Rightarrow> True) \<and>
      (case Some (4 :: int) of Some m \<Rightarrow> 0 \<le> m \<and> m \<le> int (length (array ?s')) | None \<Rightarrow> True) \<and>
      array ?s' \<noteq> []"
    by (simp add: addAll_calls_def addAll_def model_eval)
  have "search NumericSort ?s' 9 (Some 0) (Some 4) =
      (search_loop NumericSort 9 (array ?st)
         (case Some 0 of Some m \<Rightarrow> m | None \<Rightarrow> 0)
         (case Some 4 of Some m \<Rightarrow> m | None \<Rightarrow> int (length (array ?st)) - 1)
         ((case Some 4 of Some m \<Rightarrow> m | None \<Rightarrow> int (length (array ?st)) - 1) div 2), ?st)"
    using inst b by blast
  then have sr: "fst (search NumericSort ?s' 9 (Some 0) (Some 4)) = Inr (4, True)"
    by (simp add: addAll_calls_def addAll_def model_eval search_loop.simps)
  show ?thesis
    using l t sw gt it sr by blast
qed

text \<open>
  C1 as stated, for every operation that exposes order-dependent data, fails for an
  iterator that is read after a later \<open>add\<close>: made on the collection of 3 and 1, then
  read after \<open>add(0)\<close>, it yields 1, 3, 0, although 3 is above 0 under \<open>NumericSort\<close>; the
  backing array is not sorted at that moment.
\<close>

theorem iterator_after_add_counterexample:
  "Generator_rest (fst (values_iter NumericSort (constructor (Some [3, 1]))))
     (snd (addAll (snd (values_iter NumericSort (constructor (Some [3, 1])))) [0]))
     = Inr [1, 3, 0] \<and>
   NumericSort 3 0 = Num 3 \<and>
   map obj (array (snd (addAll (snd (values_iter NumericSort (constructor (Some [3, 1])))) [0])))
     = [1, 3, 0] \<and>
   \<not> sorted_flag (snd (addAll (snd (values_iter NumericSort (constructor (Some [3, 1])))) [0]))"
  by (simp add: Generator_rest.simps Generator_next_def values_iter_def addAll_def model_eval)

subsection \<open>Binary search over the whole array\<close>

declare search_loop.simps [simp del]

lemma sorted_payload_mono:
  assumes c: "consistent ocf" and srt: "sorted_wrt (cle ocf) xs"
    and ij: "i \<le> j" "j < length xs"
  shows "cle ocf (xs ! i) (xs ! j)"
proof (cases "i = j")
  case True
  have "SortCompare ocf (xs ! i) (xs ! i) = 0"
    using sgn_flip_cases [OF consistent_flip [OF c, of "xs ! i" "xs ! i"]] by linarith
  then show ?thesis using True by (simp add: cle_def)
next
  case False
  then show ?thesis using srt ij by (simp add: sorted_wrt_iff_nth_less)
qed

lemma key_below_mono:
  assumes c: "consistent ocf" and srt: "sorted_wrt (cle ocf) xs"
    and ij: "i \<le> j" "j < length xs" and lt: "SortCompare ocf k (xs ! i) < 0"
  shows "SortCompare ocf k (xs ! j) < 0"
  using consistent_less_le_trans [OF c lt sorted_payload_mono [OF c srt ij]] .

lemma key_above_mono:
  assumes c: "consistent ocf" and srt: "sorted_wrt (cle ocf) xs"
    and ij: "i \<le> j" "j < length xs" and gt: "SortCompare ocf k (xs ! j) > 0"
  shows "SortCompare ocf k (xs ! i) > 0"
proof -
  have "SortCompare ocf (xs ! j) k < 0"
    using gt consistent_neg_flip [OF c, of "xs ! j" k] by blast
  then have "SortCompare ocf (xs ! i) k < 0"
    using consistent_le_less_trans [OF c sorted_payload_mono [OF c srt ij]] by blast
  then show ?thesis using consistent_neg_flip [OF c, of "xs ! i" k] by blast
qed

lemma search_loop_full:
  "consistent ocf \<Longrightarrow> sorted_wrt (cle ocf) (map obj arr) \<Longrightarrow>
    0 \<le> mn \<Longrightarrow> mx < int (length arr) \<Longrightarrow> mn \<le> mx + 1 \<Longrightarrow> cur = (mn + mx) div 2 \<Longrightarrow>
    (\<forall>i. 0 \<le> i \<and> i < mn \<longrightarrow> SortCompare ocf ob (obj (arr ! nat i)) > 0) \<Longrightarrow>
    (\<forall>i. mx < i \<and> i < int (length arr) \<longrightarrow> SortCompare ocf ob (obj (arr ! nat i)) < 0) \<Longrightarrow>
    \<exists>i b. search_loop ocf ob arr mn mx cur = Inr (i, b) \<and>
      (b \<longrightarrow> 0 \<le> i \<and> i < int (length arr) \<and> SortCompare ocf ob (obj (arr ! nat i)) = 0) \<and>
      (\<not> b \<longrightarrow> - 1 \<le> i \<and> i < int (length arr) \<and>
           (\<forall>j. 0 \<le> j \<and> j \<le> i \<longrightarrow> SortCompare ocf ob (obj (arr ! nat j)) > 0) \<and>
           (\<forall>j. i < j \<and> j < int (length arr) \<longrightarrow> SortCompare ocf ob (obj (arr ! nat j)) < 0))"
proof (induction ocf ob arr mn mx cur rule: search_loop.induct)
  case (1 ocf ob arr mn mx cur)
  note c = "1.prems"(1) and srt = "1.prems"(2)
  let ?n = "int (length arr)"
  let ?c = "\<lambda>i. SortCompare ocf ob (obj (arr ! nat i))"
  show ?case
  proof (cases "mx \<ge> mn")
    case False
    then have "mx = mn - 1" using "1.prems"(3-) by linarith
    then have cur: "cur = mx" using "1.prems"(3-) by simp
    have "search_loop ocf ob arr mn mx cur = Inr (cur, False)"
      using False by (subst search_loop.simps) simp
    then show ?thesis using cur "1.prems"(3-) \<open>mx = mn - 1\<close> by auto
  next
    case True
    then have rng: "mn \<le> cur" "cur \<le> mx" "0 \<le> cur" "cur < ?n" using "1.prems"(3-) by auto
    then have ag: "Array_get arr cur = Some (arr ! nat cur)" by (simp add: Array_get_def)
    obtain v where v: "ocf ob (obj (arr ! nat cur)) = Num v"
      using consistent_Num [OF c] by blast
    then have sc: "?c cur = v" by (simp add: SortCompare_def)
    have nth: "\<And>i. 0 \<le> i \<Longrightarrow> i < ?n \<Longrightarrow> map obj arr ! nat i = obj (arr ! nat i)"
      by simp
    show ?thesis
    proof (cases "v = 0")
      case True0: True
      have "search_loop ocf ob arr mn mx cur = Inr (cur, True)"
        using True ag v True0 by (subst search_loop.simps) simp
      then show ?thesis using rng sc True0 by auto
    next
      case False0: False
      show ?thesis
      proof (cases "v < 0")
        case neg: True
        have step: "search_loop ocf ob arr mn mx cur =
            search_loop ocf ob arr mn (cur - 1) ((mn + (cur - 1)) div 2)"
          using True ag v False0 neg by (subst search_loop.simps) simp
        have up: "\<forall>i. cur - 1 < i \<and> i < ?n \<longrightarrow> ?c i < 0"
        proof (intro allI impI)
          fix i assume i: "cur - 1 < i \<and> i < ?n"
          have a: "nat cur \<le> nat i" "nat i < length (map obj arr)" "nat cur < length arr"
            using i rng by (simp; linarith)+
          have "SortCompare ocf ob (map obj arr ! nat cur) < 0" using a(3) sc neg by simp
          from key_below_mono [OF c srt a(1,2) this]
          show "?c i < 0" using a(2) by simp
        qed
        have "\<exists>i b. search_loop ocf ob arr mn (cur - 1) ((mn + (cur - 1)) div 2) = Inr (i, b) \<and>
            (b \<longrightarrow> 0 \<le> i \<and> i < ?n \<and> ?c i = 0) \<and>
            (\<not> b \<longrightarrow> - 1 \<le> i \<and> i < ?n \<and> (\<forall>j. 0 \<le> j \<and> j \<le> i \<longrightarrow> ?c j > 0) \<and>
                 (\<forall>j. i < j \<and> j < ?n \<longrightarrow> ?c j < 0))"
          using "1.IH"(1) [OF True ag v False0 neg c srt] "1.prems"(3-) rng up by simp
        then show ?thesis unfolding step .
      next
        case pos: False
        then have vp: "v > 0" using False0 by simp
        have step: "search_loop ocf ob arr mn mx cur =
            search_loop ocf ob arr (cur + 1) mx ((cur + 1 + mx) div 2)"
          using True ag v False0 pos by (subst search_loop.simps) simp
        have low: "\<forall>i. 0 \<le> i \<and> i < cur + 1 \<longrightarrow> ?c i > 0"
        proof (intro allI impI)
          fix i assume i: "0 \<le> i \<and> i < cur + 1"
          have a: "nat i \<le> nat cur" "nat cur < length (map obj arr)" "nat i < length arr"
            using i rng by (simp; linarith)+
          have "SortCompare ocf ob (map obj arr ! nat cur) > 0" using a(2) sc vp by simp
          from key_above_mono [OF c srt a(1,2) this]
          show "?c i > 0" using a(3) by simp
        qed
        have "\<exists>i b. search_loop ocf ob arr (cur + 1) mx ((cur + 1 + mx) div 2) = Inr (i, b) \<and>
            (b \<longrightarrow> 0 \<le> i \<and> i < ?n \<and> ?c i = 0) \<and>
            (\<not> b \<longrightarrow> - 1 \<le> i \<and> i < ?n \<and> (\<forall>j. 0 \<le> j \<and> j \<le> i \<longrightarrow> ?c j > 0) \<and>
                 (\<forall>j. i < j \<and> j < ?n \<longrightarrow> ?c j < 0))"
          using "1.IH"(2) [OF True ag v False0 pos c srt] "1.prems"(3-) rng low by simp
        then show ?thesis unfolding step .
      qed
    qed
  qed
qed

lemma search_full_range:
  assumes ne: "array s \<noteq> []"
  shows "search ocf s key None None =
     (search_loop ocf key (array (sort_private ocf s)) 0 (int (length (array s)) - 1)
        ((int (length (array s)) - 1) div 2), sort_private ocf s)"
  using ne by (simp add: search_def Let_def wrapOne_def)

lemma search_full_spec:
  assumes c: "consistent ocf" and fs: "flags_sound ocf s" and ne: "array s \<noteq> []"
  defines "arr \<equiv> array (sort_private ocf s)"
  shows "\<exists>i b. search ocf s key None None = (Inr (i, b), sort_private ocf s) \<and>
      (b \<longrightarrow> 0 \<le> i \<and> i < int (length arr) \<and> SortCompare ocf key (obj (arr ! nat i)) = 0) \<and>
      (\<not> b \<longrightarrow> - 1 \<le> i \<and> i < int (length arr) \<and>
           (\<forall>j. 0 \<le> j \<and> j \<le> i \<longrightarrow> SortCompare ocf key (obj (arr ! nat j)) > 0) \<and>
           (\<forall>j. i < j \<and> j < int (length arr) \<longrightarrow> SortCompare ocf key (obj (arr ! nat j)) < 0))"
proof -
  have srt: "sorted_wrt (cle ocf) (map obj arr)"
    unfolding arr_def by (rule sorted_payloads [OF sorted_sort_private [OF c fs]])
  have len: "length arr = length (array s)" unfolding arr_def by (rule length_sort_private)
  have "\<exists>i b. search_loop ocf key arr 0 (int (length arr) - 1) ((0 + (int (length arr) - 1)) div 2)
           = Inr (i, b) \<and>
      (b \<longrightarrow> 0 \<le> i \<and> i < int (length arr) \<and> SortCompare ocf key (obj (arr ! nat i)) = 0) \<and>
      (\<not> b \<longrightarrow> - 1 \<le> i \<and> i < int (length arr) \<and>
           (\<forall>j. 0 \<le> j \<and> j \<le> i \<longrightarrow> SortCompare ocf key (obj (arr ! nat j)) > 0) \<and>
           (\<forall>j. i < j \<and> j < int (length arr) \<longrightarrow> SortCompare ocf key (obj (arr ! nat j)) < 0))"
    by (rule search_loop_full [OF c srt]) simp_all
  then show ?thesis
    unfolding search_full_range [OF ne] arr_def [symmetric] len [symmetric] by simp
qed

lemma wrap_flags:
  "sorting (snd (wrap s objs)) = sorting s \<and> sorted_flag (snd (wrap s objs)) = sorted_flag s"
proof (induction objs arbitrary: s)
  case Nil
  then show ?case by simp
next
  case (Cons ob objs)
  obtain node s1 where w: "wrapOne s ob False None = (node, s1)" by (cases "wrapOne s ob False None")
  obtain nodes s2 where r: "wrap s1 objs = (nodes, s2)" by (cases "wrap s1 objs")
  have "sorting s1 = sorting s" "sorted_flag s1 = sorted_flag s"
    using wrapOne_flags [of s ob False None] w by simp_all
  then show ?case using Cons.IH [of s1] w r by simp
qed

lemma flags_sound_constructor: "flags_sound ocf (constructor elements)"
proof (cases elements)
  case None
  then show ?thesis by (simp add: flags_sound_def constructor_def)
next
  case (Some els)
  let ?s0 = "\<lparr>array = [], sorted_flag = False, sorting = False,
                insertionCounter = MIN_SAFE_INTEGER\<rparr> :: 'a SortedArray"
  obtain nodes s1 where w: "wrap ?s0 els = (nodes, s1)" by (cases "wrap ?s0 els")
  have "\<not> sorting s1" "\<not> sorted_flag s1" using wrap_flags [of ?s0 els] w by simp_all
  then show ?thesis using Some w by (simp add: flags_sound_def constructor_def)
qed

subsection \<open>The nearest elements\<close>

text \<open>
  C4. \<open>findNearest\<close> always returns. On an empty collection it returns
  \<open>{ lt: undefined, gt: undefined }\<close>. On a collection that is not empty it returns \<open>{ eq }\<close> with
  an element of the sorted view that compares equal to the key, or, when no element
  compares equal to the key, \<open>{ lt, gt }\<close> where \<open>lt\<close> is the greatest element strictly below
  the key and \<open>gt\<close> the least element strictly above it, each \<open>undefined\<close> when there is no
  such element.
\<close>

theorem findNearest_total:
  assumes c: "consistent ocf" and fs: "flags_sound ocf s"
  shows "(array s = [] \<longrightarrow> fst (findNearest ocf s key) = Inr (LtGt None None)) \<and>
         (array s \<noteq> [] \<longrightarrow>
            (let xs = fst (toArray ocf s) in
             (\<exists>i. 0 \<le> i \<and> i < int (length xs) \<and> SortCompare ocf key (xs ! nat i) = 0 \<and>
                  fst (findNearest ocf s key) = Inr (Eq (FindResult (xs ! nat i) i))) \<or>
             ((\<forall>x\<in>set xs. SortCompare ocf key x \<noteq> 0) \<and>
              (\<exists>lt gt. fst (findNearest ocf s key) = Inr (LtGt lt gt) \<and>
                  greatest_below ocf key xs lt \<and> least_above ocf key xs gt))))"
proof (intro conjI impI)
  assume "array s = []"
  then show "fst (findNearest ocf s key) = Inr (LtGt None None)"
    by (simp add: findNearest_def search_def)
next
  assume ne: "array s \<noteq> []"
  define arr where "arr = array (sort_private ocf s)"
  define xs where "xs = map obj arr"
  let ?c = "\<lambda>j. SortCompare ocf key (obj (arr ! nat j))"
  have xs: "fst (toArray ocf s) = xs"
    by (simp add: toArray_def unwrap_def xs_def arr_def Let_def)
  have len: "length xs = length arr" by (simp add: xs_def)
  have nz: "length arr \<noteq> 0" unfolding arr_def length_sort_private using ne by simp
  have nth: "\<And>j. j < length arr \<Longrightarrow> xs ! j = obj (arr ! j)" by (simp add: xs_def)
  obtain i b where e: "search ocf s key None None = (Inr (i, b), sort_private ocf s)"
    and found: "b \<longrightarrow> 0 \<le> i \<and> i < int (length arr) \<and> ?c i = 0"
    and hint: "\<not> b \<longrightarrow> - 1 \<le> i \<and> i < int (length arr) \<and>
           (\<forall>j. 0 \<le> j \<and> j \<le> i \<longrightarrow> ?c j > 0) \<and>
           (\<forall>j. i < j \<and> j < int (length arr) \<longrightarrow> ?c j < 0)"
    using search_full_spec [OF c fs ne, of key] unfolding arr_def by blast
  have main: "(\<exists>i. 0 \<le> i \<and> i < int (length xs) \<and> SortCompare ocf key (xs ! nat i) = 0 \<and>
                  fst (findNearest ocf s key) = Inr (Eq (FindResult (xs ! nat i) i))) \<or>
             ((\<forall>x\<in>set xs. SortCompare ocf key x \<noteq> 0) \<and>
              (\<exists>lt gt. fst (findNearest ocf s key) = Inr (LtGt lt gt) \<and>
                  greatest_below ocf key xs lt \<and> least_above ocf key xs gt))"
  proof (cases b)
    case True
    then have i: "0 \<le> i" "i < int (length arr)" "?c i = 0" using found by auto
    have "fst (findNearest ocf s key) = Inr (Eq (FindResult (obj (arr ! nat i)) i))"
      using True i by (simp add: findNearest_def e Array_get_def arr_def [symmetric])
    then show ?thesis using i len nth [of "nat i"] by auto
  next
    case False
    then have h: "- 1 \<le> i" "i < int (length arr)"
        "\<And>j. 0 \<le> j \<Longrightarrow> j \<le> i \<Longrightarrow> ?c j > 0"
        "\<And>j. i < j \<Longrightarrow> j < int (length arr) \<Longrightarrow> ?c j < 0"
      using hint by auto
    have all: "\<And>j. j < length arr \<Longrightarrow>
        (int j \<le> i \<longrightarrow> SortCompare ocf key (xs ! j) > 0) \<and>
        (i < int j \<longrightarrow> SortCompare ocf key (xs ! j) < 0)"
    proof -
      fix j assume j: "j < length arr"
      show "(int j \<le> i \<longrightarrow> SortCompare ocf key (xs ! j) > 0) \<and>
        (i < int j \<longrightarrow> SortCompare ocf key (xs ! j) < 0)"
        using h(3) [of "int j"] h(4) [of "int j"] j nth [OF j] by auto
    qed
    have noeq: "\<forall>x\<in>set xs. SortCompare ocf key x \<noteq> 0"
    proof
      fix x assume "x \<in> set xs"
      then obtain j where j: "j < length arr" "x = xs ! j"
        using len by (auto simp: in_set_conv_nth)
      then show "SortCompare ocf key x \<noteq> 0" using all [OF j(1)] by (cases "int j \<le> i") auto
    qed
    define lt where "lt = (if i < 0 then None else Some (FindResult (obj (arr ! nat i)) i))"
    define gt where "gt = (if i + 1 \<ge> int (length arr) then None
                           else Some (FindResult (obj (arr ! nat (i + 1))) (i + 1)))"
    have res: "fst (findNearest ocf s key) = Inr (LtGt lt gt)"
    proof (cases "i < 0")
      case True
      then have "i = - 1" using h(1) by simp
      then show ?thesis using False nz
        by (simp add: findNearest_def e Array_get_def arr_def [symmetric] lt_def gt_def)
    next
      case False2: False
      then have i0: "0 \<le> i" by simp
      obtain v where v: "ocf key (obj (arr ! nat i)) = Num v"
        using consistent_Num [OF c] by blast
      then have "v > 0" using h(3) [of i] i0 by (simp add: SortCompare_def)
      then show ?thesis using False False2 h(2) v
        by (simp add: findNearest_def e Array_get_def arr_def [symmetric] lt_def gt_def)
    qed
    have glt: "greatest_below ocf key xs lt"
    proof (cases "i < 0")
      case True
      then have "\<forall>x\<in>set xs. \<not> SortCompare ocf key x > 0"
        using all len by (fastforce simp: in_set_conv_nth)
      then show ?thesis using True by (simp add: greatest_below_def lt_def)
    next
      case False3: False
      then have i0: "0 \<le> i" "nat i < length arr" using h(2) by auto
      have "\<forall>j < length xs. SortCompare ocf key (xs ! j) > 0 \<longrightarrow> int j \<le> i"
        using all len by (metis not_less order_less_asym)
      moreover have "SortCompare ocf key (xs ! nat i) > 0" using all [OF i0(2)] i0(1) by simp
      ultimately show ?thesis using False3 i0 h(2) len nth [OF i0(2)]
        by (simp add: greatest_below_def lt_def)
    qed
    have lgt: "least_above ocf key xs gt"
    proof (cases "i + 1 \<ge> int (length arr)")
      case True
      then have "\<forall>x\<in>set xs. \<not> SortCompare ocf key x < 0"
        using all len by (fastforce simp: in_set_conv_nth)
      then show ?thesis using True by (simp add: least_above_def gt_def)
    next
      case False4: False
      then have i1: "0 \<le> i + 1" "nat (i + 1) < length arr" using h(1) by auto
      have "\<forall>j < length xs. SortCompare ocf key (xs ! j) < 0 \<longrightarrow> i + 1 \<le> int j"
        using all len by (metis not_less order_less_asym zless_add1_eq not_le)
      moreover have "SortCompare ocf key (xs ! nat (i + 1)) < 0" using all [OF i1(2)] i1(1) by simp
      ultimately show ?thesis using False4 i1 len nth [OF i1(2)]
        by (simp add: least_above_def gt_def)
    qed
    show ?thesis using noeq res glt lgt by blast
  qed
  show "let xs = fst (toArray ocf s) in
             (\<exists>i. 0 \<le> i \<and> i < int (length xs) \<and> SortCompare ocf key (xs ! nat i) = 0 \<and>
                  fst (findNearest ocf s key) = Inr (Eq (FindResult (xs ! nat i) i))) \<or>
             ((\<forall>x\<in>set xs. SortCompare ocf key x \<noteq> 0) \<and>
              (\<exists>lt gt. fst (findNearest ocf s key) = Inr (LtGt lt gt) \<and>
                  greatest_below ocf key xs lt \<and> least_above ocf key xs gt))"
    unfolding Let_def xs using main .
qed

theorem findNearest_total_witness:
  "fst (findNearest NumericSort (constructor None) 4) = Inr (LtGt None None) \<and>
   array (constructor (Some [5, 3, 9, 1, 3 :: int])) \<noteq> [] \<and>
   fst (toArray NumericSort (constructor (Some [5, 3, 9, 1, 3]))) = [1, 3, 3, 5, 9] \<and>
   fst (findNearest NumericSort (constructor (Some [5, 3, 9, 1, 3])) 4) =
     Inr (LtGt (Some (FindResult 3 2)) (Some (FindResult 5 3))) \<and>
   fst (findNearest NumericSort (constructor (Some [5, 3, 9, 1, 3])) 0) =
     Inr (LtGt None (Some (FindResult 1 0))) \<and>
   fst (findNearest NumericSort (constructor (Some [5, 3, 9, 1, 3])) 5) =
     Inr (Eq (FindResult 5 3))"
proof -
  let ?s = "constructor (Some [5, 3, 9, 1, 3 :: int])"
  have a: "array (constructor None :: int SortedArray) = []" by (simp add: constructor_def)
  have e: "fst (findNearest NumericSort (constructor None) 4) = Inr (LtGt None None)"
    using findNearest_total [OF consistent_NumericSort flags_sound_constructor, of None 4] a
    by blast
  have ne: "array ?s \<noteq> []" by (simp add: model_eval)
  have t: "fst (toArray NumericSort ?s) = [1, 3, 3, 5, 9]" by (simp add: model_eval)
  have v4: "fst (findNearest NumericSort ?s 4) = Inr (LtGt (Some (FindResult 3 2)) (Some (FindResult 5 3)))"
    by (simp add: findNearest_def search_def search_loop.simps model_eval)
  have v0: "fst (findNearest NumericSort ?s 0) = Inr (LtGt None (Some (FindResult 1 0)))"
    by (simp add: findNearest_def search_def search_loop.simps model_eval)
  have v5: "fst (findNearest NumericSort ?s 5) = Inr (Eq (FindResult 5 3))"
    by (simp add: findNearest_def search_def search_loop.simps model_eval)
  show ?thesis
    using e ne t v4 v0 v5
      findNearest_total [OF consistent_NumericSort flags_sound_constructor, of "Some [5, 3, 9, 1, 3]" 4]
    by blast
qed

subsection \<open>Renumbering the insertion indices\<close>

lemma renumber_fold:
  "distinct ps \<Longrightarrow> \<forall>p\<in>set ps. p < length (array s) \<Longrightarrow>
   length (array (fold renumber_step ps s)) = length (array s) \<and>
   insertionCounter (fold renumber_step ps s) = insertionCounter s + int (length ps) \<and>
   (\<forall>k < length ps. index (array (fold renumber_step ps s) ! (ps ! k)) = insertionCounter s + int k) \<and>
   (\<forall>p < length (array s). p \<notin> set ps \<longrightarrow> array (fold renumber_step ps s) ! p = array s ! p) \<and>
   map obj (array (fold renumber_step ps s)) = map obj (array s)"
proof (induction ps arbitrary: s)
  case Nil
  then show ?case by simp
next
  case (Cons p ps)
  define s1 where "s1 = renumber_step p s"
  have l1: "length (array s1) = length (array s)" by (simp add: s1_def renumber_step_def)
  have c1: "insertionCounter s1 = insertionCounter s + 1" by (simp add: s1_def renumber_step_def)
  have p: "p < length (array s)" "p \<notin> set ps" "distinct ps" using Cons.prems by auto
  have at_p: "index (array s1 ! p) = insertionCounter s"
    using p(1) by (simp add: s1_def renumber_step_def)
  have other: "\<And>q. q < length (array s) \<Longrightarrow> q \<noteq> p \<Longrightarrow> array s1 ! q = array s ! q"
    by (simp add: s1_def renumber_step_def)
  have o1: "map obj (array s1) = map obj (array s)"
    using p(1) by (simp add: s1_def renumber_step_def map_update) (simp add: list_update_same_conv)
  have pre: "\<forall>q\<in>set ps. q < length (array s1)" using Cons.prems l1 by simp
  note IH = Cons.IH [OF p(3) pre]
  let ?r = "fold renumber_step ps s1"
  have f: "fold renumber_step (p # ps) s = ?r" by (simp add: s1_def)
  have a: "length (array ?r) = length (array s)" using IH l1 by simp
  have b: "insertionCounter ?r = insertionCounter s + int (length (p # ps))" using IH c1 by simp
  have d: "\<forall>k < length (p # ps). index (array ?r ! ((p # ps) ! k)) = insertionCounter s + int k"
  proof (intro allI impI)
    fix k assume k: "k < length (p # ps)"
    show "index (array ?r ! ((p # ps) ! k)) = insertionCounter s + int k"
    proof (cases k)
      case 0
      have "array ?r ! p = array s1 ! p" using IH p l1 by simp
      then show ?thesis using 0 at_p by simp
    next
      case (Suc k')
      then have "k' < length ps" using k by simp
      then have "index (array ?r ! (ps ! k')) = insertionCounter s1 + int k'" using IH by blast
      then show ?thesis using Suc c1 by simp
    qed
  qed
  have e: "\<forall>q < length (array s). q \<notin> set (p # ps) \<longrightarrow> array ?r ! q = array s ! q"
    using IH l1 other by simp
  have g: "map obj (array ?r) = map obj (array s)" using IH o1 by simp
  show ?case unfolding f using a b d e g by blast
qed

lemma distinct_map_nth_neq:
  assumes "distinct (map f xs)" "p < length xs" "q < length xs" "p \<noteq> q"
  shows "f (xs ! p) \<noteq> f (xs ! q)"
proof -
  have "map f xs ! p \<noteq> map f xs ! q"
    using nth_eq_iff_index_eq [OF assms(1), of p q] assms(2-4) by simp
  then show ?thesis using assms(2,3) by simp
qed

lemma reduceInsertionOrders_spec:
  assumes d: "distinct (map index (array s))"
  defines "n \<equiv> length (array s)"
  defines "s' \<equiv> reduceInsertionOrders s"
  shows "length (array s') = n"
    and "insertionCounter s' = MIN_SAFE_INTEGER + int n"
    and "map obj (array s') = map obj (array s)"
    and "\<forall>p < n. MIN_SAFE_INTEGER \<le> index (array s' ! p) \<and> index (array s' ! p) < MIN_SAFE_INTEGER + int n"
    and "\<forall>p < n. \<forall>q < n. index (array s' ! p) < index (array s' ! q)
            \<longleftrightarrow> index (array s ! p) < index (array s ! q)"
proof -
  define f where "f = (\<lambda>a b. Num (index (array s ! a) - index (array s ! b)))"
  define copy where "copy = Array_sort f [0 ..< n]"
  define s0 where "s0 = s\<lparr>insertionCounter := MIN_SAFE_INTEGER\<rparr>"
  have s': "s' = fold renumber_step copy s0"
    by (simp add: s'_def reduceInsertionOrders_def Let_def copy_def f_def n_def s0_def)
  have cle_f: "\<And>a b. cle f a b \<longleftrightarrow> index (array s ! a) \<le> index (array s ! b)"
    by (simp add: cle_def SortCompare_def f_def)
  have srt: "sorted_wrt (cle f) copy"
    unfolding copy_def by (rule sorted_wrt_Array_sort) (auto simp: cle_f)
  have ms: "mset copy = mset [0 ..< n]" unfolding copy_def by (rule mset_Array_sort)
  have dc: "distinct copy" using ms by (metis distinct_upt mset_eq_imp_distinct_iff)
  have sc: "set copy = {0 ..< n}" using ms by (metis atLeastLessThan_upt mset_eq_setD)
  have lc: "length copy = n" using ms by (metis length_upt diff_zero mset_eq_length)
  have pre: "\<forall>p\<in>set copy. p < length (array s0)" using sc by (simp add: s0_def n_def)
  note F = renumber_fold [OF dc pre, folded s']
  have c0: "insertionCounter s0 = MIN_SAFE_INTEGER" "array s0 = array s" by (simp_all add: s0_def)
  show "length (array s') = n" using F c0 by (simp add: n_def)
  show "insertionCounter s' = MIN_SAFE_INTEGER + int n" using F c0 lc by simp
  show "map obj (array s') = map obj (array s)" using F c0 by simp
  have new: "\<And>k. k < n \<Longrightarrow> index (array s' ! (copy ! k)) = MIN_SAFE_INTEGER + int k"
    using F c0 lc by simp
  have pos: "\<And>p. p < n \<Longrightarrow> \<exists>k < n. copy ! k = p"
    using sc lc by (metis atLeastLessThan_iff in_set_conv_nth zero_le)
  have old_mono: "\<And>k l. k < l \<Longrightarrow> l < n \<Longrightarrow>
      index (array s ! (copy ! k)) < index (array s ! (copy ! l))"
  proof -
    fix k l assume kl: "k < l" "l < n"
    have "cle f (copy ! k) (copy ! l)" using srt kl lc by (simp add: sorted_wrt_iff_nth_less)
    then have le: "index (array s ! (copy ! k)) \<le> index (array s ! (copy ! l))" by (simp add: cle_f)
    have ne: "copy ! k \<noteq> copy ! l" using dc kl lc by (simp add: nth_eq_iff_index_eq)
    have "copy ! k \<in> set copy" "copy ! l \<in> set copy" using kl lc by simp_all
    then have in_n: "copy ! k < n" "copy ! l < n" unfolding sc by simp_all
    have "index (array s ! (copy ! k)) \<noteq> index (array s ! (copy ! l))"
      using distinct_map_nth_neq [OF d _ _ ne] in_n by (simp add: n_def)
    then show "index (array s ! (copy ! k)) < index (array s ! (copy ! l))" using le by simp
  qed
  show "\<forall>p < n. MIN_SAFE_INTEGER \<le> index (array s' ! p) \<and> index (array s' ! p) < MIN_SAFE_INTEGER + int n"
  proof (intro allI impI)
    fix p assume "p < n"
    then obtain k where "k < n" "copy ! k = p" using pos by blast
    then show "MIN_SAFE_INTEGER \<le> index (array s' ! p) \<and> index (array s' ! p) < MIN_SAFE_INTEGER + int n"
      using new [of k] by simp
  qed
  show "\<forall>p < n. \<forall>q < n. index (array s' ! p) < index (array s' ! q)
            \<longleftrightarrow> index (array s ! p) < index (array s ! q)"
  proof (intro allI impI)
    fix p q assume pq: "p < n" "q < n"
    obtain k where k: "k < n" "copy ! k = p" using pos pq by blast
    obtain l where l: "l < n" "copy ! l = q" using pos pq by blast
    have nw: "index (array s' ! p) < index (array s' ! q) \<longleftrightarrow> k < l"
      using new [OF k(1)] new [OF l(1)] k l by simp
    have "k < l \<longleftrightarrow> index (array s ! p) < index (array s ! q)"
    proof
      assume "k < l"
      then show "index (array s ! p) < index (array s ! q)" using old_mono [of k l] k l by simp
    next
      assume lt: "index (array s ! p) < index (array s ! q)"
      show "k < l"
      proof (rule ccontr)
        assume "\<not> k < l"
        then consider "k = l" | "l < k" by linarith
        then show False
        proof cases
          case 1
          then show False using lt k l by simp
        next
          case 2
          then show False using old_mono [of l k] k l lt by simp
        qed
      qed
    qed
    then show "index (array s' ! p) < index (array s' ! q)
            \<longleftrightarrow> index (array s ! p) < index (array s ! q)" using nw by simp
  qed
qed

lemma reduceInsertionOrders_distinct:
  assumes d: "distinct (map index (array s))"
  shows "distinct (map index (array (reduceInsertionOrders s)))"
proof -
  let ?s' = "reduceInsertionOrders s"
  note R = reduceInsertionOrders_spec [OF d]
  have "\<And>p q. p < length (array ?s') \<Longrightarrow> q < length (array ?s') \<Longrightarrow> p \<noteq> q \<Longrightarrow>
      index (array ?s' ! p) \<noteq> index (array ?s' ! q)"
  proof -
    fix p q assume pq: "p < length (array ?s')" "q < length (array ?s')" "p \<noteq> q"
    then have pq': "p < length (array s)" "q < length (array s)" using R(1) by simp_all
    have "index (array s ! p) \<noteq> index (array s ! q)"
      by (rule distinct_map_nth_neq [OF d pq' pq(3)])
    then have "index (array s ! p) < index (array s ! q) \<or> index (array s ! q) < index (array s ! p)"
      by linarith
    then have "index (array ?s' ! p) < index (array ?s' ! q) \<or> index (array ?s' ! q) < index (array ?s' ! p)"
      using R(5) pq' by blast
    then show "index (array ?s' ! p) \<noteq> index (array ?s' ! q)" by auto
  qed
  then show ?thesis by (simp add: distinct_conv_nth)
qed

lemma index_image_dense:
  assumes d: "distinct (map index arr)"
    and r: "\<forall>p < length arr. lo \<le> index (arr ! p) \<and> index (arr ! p) < lo + int (length arr)"
  shows "index ` set arr = {lo ..< lo + int (length arr)}"
proof (rule card_subset_eq)
  show "finite {lo ..< lo + int (length arr)}" by simp
  show "index ` set arr \<subseteq> {lo ..< lo + int (length arr)}"
    using r by (auto simp: in_set_conv_nth)
  have "card (index ` set arr) = length arr"
    using d distinct_card [of "map index arr"] by simp
  then show "card (index ` set arr) = card {lo ..< lo + int (length arr)}" by simp
qed

lemma wrapOne_below_threshold:
  assumes "insertionCounter s + 1 < MAX_SAFE_INTEGER"
  shows "wrapOne s ob False None =
     (\<lparr>obj = ob, index = insertionCounter s\<rparr>, s\<lparr>insertionCounter := insertionCounter s + 1\<rparr>)"
  using assms by (simp add: wrapOne_def Let_def)

lemma wrapOne_at_threshold:
  assumes "insertionCounter s + 1 \<ge> MAX_SAFE_INTEGER"
  shows "wrapOne s ob False None =
     (let s2 = reduceInsertionOrders (s\<lparr>insertionCounter := insertionCounter s + 1\<rparr>)
      in (\<lparr>obj = ob, index = insertionCounter s2\<rparr>,
          s2\<lparr>insertionCounter := insertionCounter s2 + 1\<rparr>))"
  using assms by (simp add: wrapOne_def Let_def)

lemma wrapOne_renumbers:
  fixes s :: "'a SortedArray" and ob :: 'a
  assumes cs: "counter_sound s"
  defines "n \<equiv> length (array s)"
  defines "node \<equiv> fst (wrapOne s ob False None)"
  defines "s' \<equiv> snd (wrapOne s ob False None)"
  shows "insertionCounter s + 1 < MAX_SAFE_INTEGER \<longrightarrow>
           array s' = array s \<and> index node = insertionCounter s"
    and "insertionCounter s + 1 \<ge> MAX_SAFE_INTEGER \<longrightarrow>
           index ` set (array s') = {MIN_SAFE_INTEGER ..< MIN_SAFE_INTEGER + int n} \<and>
           index node = MIN_SAFE_INTEGER + int n"
    and "map obj (array s') = map obj (array s)"
    and "\<forall>p < n. \<forall>q < n. index (array s' ! p) < index (array s' ! q)
            \<longleftrightarrow> index (array s ! p) < index (array s ! q)"
    and "obj node = ob" and "index node + 1 = insertionCounter s'"
    and "\<forall>x\<in>set (array s'). index x < index node"
    and "counter_sound s'"
    and "sorting s' = sorting s" and "sorted_flag s' = sorted_flag s"
proof -
  have d: "distinct (map index (array s))"
    and b: "\<forall>x\<in>set (array s). MIN_SAFE_INTEGER \<le> index x \<and> index x < insertionCounter s"
    and c: "MIN_SAFE_INTEGER \<le> insertionCounter s" "insertionCounter s < MAX_SAFE_INTEGER"
    and l: "length (array s) \<le> MAX_ARRAY_LENGTH"
    using cs by (auto simp: counter_sound_def)
  show fl: "sorting s' = sorting s" "sorted_flag s' = sorted_flag s"
    using wrapOne_flags [of s ob False None] by (simp_all add: s'_def)
  have all: "(insertionCounter s + 1 < MAX_SAFE_INTEGER \<longrightarrow>
           array s' = array s \<and> index node = insertionCounter s) \<and>
     (insertionCounter s + 1 \<ge> MAX_SAFE_INTEGER \<longrightarrow>
           index ` set (array s') = {MIN_SAFE_INTEGER ..< MIN_SAFE_INTEGER + int n} \<and>
           index node = MIN_SAFE_INTEGER + int n) \<and>
     map obj (array s') = map obj (array s) \<and>
     (\<forall>p < n. \<forall>q < n. index (array s' ! p) < index (array s' ! q)
            \<longleftrightarrow> index (array s ! p) < index (array s ! q)) \<and>
     obj node = ob \<and> index node + 1 = insertionCounter s' \<and>
     (\<forall>x\<in>set (array s'). index x < index node) \<and> counter_sound s'"
  proof (cases "insertionCounter s + 1 < MAX_SAFE_INTEGER")
    case True
    have w: "wrapOne s ob False None =
       (\<lparr>obj = ob, index = insertionCounter s\<rparr>, s\<lparr>insertionCounter := insertionCounter s + 1\<rparr>)"
      by (rule wrapOne_below_threshold [OF True])
    have "counter_sound s'"
      using d b c l True unfolding counter_sound_def s'_def w by auto
    then show ?thesis using True b unfolding s'_def node_def w by auto
  next
    case False
    then have th: "insertionCounter s + 1 \<ge> MAX_SAFE_INTEGER" by simp
    define s1 where "s1 = s\<lparr>insertionCounter := insertionCounter s + 1\<rparr>"
    define s2 where "s2 = reduceInsertionOrders s1"
    have w: "wrapOne s ob False None =
        (\<lparr>obj = ob, index = insertionCounter s2\<rparr>, s2\<lparr>insertionCounter := insertionCounter s2 + 1\<rparr>)"
      unfolding wrapOne_at_threshold [OF th] Let_def s1_def s2_def ..
    have a1: "array s1 = array s" by (simp add: s1_def)
    have d1: "distinct (map index (array s1))" using d a1 by simp
    note R = reduceInsertionOrders_spec [OF d1, folded s2_def, unfolded a1, folded n_def]
    have d2: "distinct (map index (array s2))"
      unfolding s2_def by (rule reduceInsertionOrders_distinct [OF d1])
    have arr': "array s' = array s2" and cnt': "insertionCounter s' = MIN_SAFE_INTEGER + int n + 1"
      and nd: "index node = MIN_SAFE_INTEGER + int n" "obj node = ob"
      using R(2) unfolding s'_def node_def w by simp_all
    have rng: "\<forall>p < length (array s2). MIN_SAFE_INTEGER \<le> index (array s2 ! p) \<and>
        index (array s2 ! p) < MIN_SAFE_INTEGER + int (length (array s2))"
      using R(1,4) by simp
    have img: "index ` set (array s') = {MIN_SAFE_INTEGER ..< MIN_SAFE_INTEGER + int n}"
      using index_image_dense [OF d2 rng] R(1) arr' by simp
    have below: "\<forall>x\<in>set (array s'). MIN_SAFE_INTEGER \<le> index x \<and> index x < index node"
      using img nd by auto
    have nb: "int n \<le> 4294967295" using l by (simp add: n_def MAX_ARRAY_LENGTH_def)
    have cs': "counter_sound s'"
      unfolding counter_sound_def arr' cnt'
      using d2 below arr' nd R(1) l nb
      by (auto simp: n_def MIN_SAFE_INTEGER_def MAX_SAFE_INTEGER_def)
    show ?thesis
      using th img nd R(3,5) arr' cnt' below cs' by auto
  qed
  show "insertionCounter s + 1 < MAX_SAFE_INTEGER \<longrightarrow>
           array s' = array s \<and> index node = insertionCounter s"
    and "insertionCounter s + 1 \<ge> MAX_SAFE_INTEGER \<longrightarrow>
           index ` set (array s') = {MIN_SAFE_INTEGER ..< MIN_SAFE_INTEGER + int n} \<and>
           index node = MIN_SAFE_INTEGER + int n"
    and "map obj (array s') = map obj (array s)"
    and "\<forall>p < n. \<forall>q < n. index (array s' ! p) < index (array s' ! q)
            \<longleftrightarrow> index (array s ! p) < index (array s ! q)"
    and "obj node = ob" and "index node + 1 = insertionCounter s'"
    and "\<forall>x\<in>set (array s'). index x < index node"
    and "counter_sound s'"
    using all by blast+
qed

lemma cle_compareFn_index_order:
  assumes o: "obj a' = obj a" "obj b' = obj b"
    and i: "index b' < index a' \<longleftrightarrow> index b < index a"
  shows "cle (compareFn ocf) a' b' \<longleftrightarrow> cle (compareFn ocf) a b"
proof -
  have "index a' - index b' \<le> 0 \<longleftrightarrow> index a - index b \<le> 0" using i by linarith
  then show ?thesis unfolding cle_def SortCompare_compareFn o by simp
qed

text \<open>
  C7. Take a collection whose insertion indices are sound and wrap one more item. If
  the incremented counter reaches \<open>MAX_SAFE_INTEGER\<close>, the renumbering pass runs: the
  nodes keep their payloads and positions, their new indices are exactly the numbers
  from \<open>MIN_SAFE_INTEGER\<close> up to \<open>MIN_SAFE_INTEGER + n - 1\<close>, and two nodes are in the same
  order by their new indices as by their old ones, so \<open>this.compareFn\<close> orders every pair
  of nodes as before; the new node gets the next index. Below the threshold the nodes
  are left alone. In both cases the new node's index is above all others, the counter
  stays between \<open>MIN_SAFE_INTEGER\<close> and \<open>MAX_SAFE_INTEGER\<close>, and the indices are sound again.
\<close>

theorem renumbering_preserves_order:
  assumes "counter_sound s"
  shows "let node = fst (wrapOne s ob False None); s' = snd (wrapOne s ob False None);
             n = length (array s) in
     (insertionCounter s + 1 < MAX_SAFE_INTEGER \<longrightarrow>
        array s' = array s \<and> index node = insertionCounter s) \<and>
     (insertionCounter s + 1 \<ge> MAX_SAFE_INTEGER \<longrightarrow>
        index ` set (array s') = {MIN_SAFE_INTEGER ..< MIN_SAFE_INTEGER + int n} \<and>
        index node = MIN_SAFE_INTEGER + int n) \<and>
     map obj (array s') = map obj (array s) \<and>
     (\<forall>p < n. \<forall>q < n.
        (index (array s' ! p) < index (array s' ! q) \<longleftrightarrow> index (array s ! p) < index (array s ! q)) \<and>
        (cle (compareFn ocf) (array s' ! p) (array s' ! q)
           \<longleftrightarrow> cle (compareFn ocf) (array s ! p) (array s ! q))) \<and>
     obj node = ob \<and> (\<forall>x\<in>set (array s'). index x < index node) \<and>
     MIN_SAFE_INTEGER \<le> insertionCounter s' \<and> insertionCounter s' \<le> MAX_SAFE_INTEGER \<and>
     counter_sound s'"
proof -
  define node where "node = fst (wrapOne s ob False None)"
  define s' where "s' = snd (wrapOne s ob False None)"
  define n where "n = length (array s)"
  note W = wrapOne_renumbers [OF assms, of ob, folded node_def s'_def n_def]
  have len: "length (array s') = n"
    using W(3) n_def by (metis length_map)
  have ord: "\<forall>p < n. \<forall>q < n.
        (index (array s' ! p) < index (array s' ! q) \<longleftrightarrow> index (array s ! p) < index (array s ! q)) \<and>
        (cle (compareFn ocf) (array s' ! p) (array s' ! q)
           \<longleftrightarrow> cle (compareFn ocf) (array s ! p) (array s ! q))"
  proof (intro allI impI)
    fix p q assume pq: "p < n" "q < n"
    have op: "obj (array s' ! p) = obj (array s ! p)"
      using W(3) pq(1) len n_def by (metis nth_map)
    have oq: "obj (array s' ! q) = obj (array s ! q)"
      using W(3) pq(2) len n_def by (metis nth_map)
    have i1: "index (array s' ! p) < index (array s' ! q) \<longleftrightarrow> index (array s ! p) < index (array s ! q)"
      using W(4) pq by blast
    have i2: "index (array s' ! q) < index (array s' ! p) \<longleftrightarrow> index (array s ! q) < index (array s ! p)"
      using W(4) pq by blast
    show "(index (array s' ! p) < index (array s' ! q) \<longleftrightarrow> index (array s ! p) < index (array s ! q)) \<and>
        (cle (compareFn ocf) (array s' ! p) (array s' ! q)
           \<longleftrightarrow> cle (compareFn ocf) (array s ! p) (array s ! q))"
      using i1 cle_compareFn_index_order [OF op oq i2] by blast
  qed
  have cnt: "MIN_SAFE_INTEGER \<le> insertionCounter s' \<and> insertionCounter s' \<le> MAX_SAFE_INTEGER"
    using W(8) by (simp add: counter_sound_def)
  show ?thesis
    unfolding Let_def node_def [symmetric] s'_def [symmetric] n_def [symmetric]
    using W(1) W(2) W(3) ord W(5) W(7) cnt W(8) by blast
qed

theorem renumbering_preserves_order_witness:
  "wrapOne \<lparr>array = [\<lparr>obj = 7 :: int, index = 100\<rparr>, \<lparr>obj = 7, index = 5\<rparr>, \<lparr>obj = 7, index = 50\<rparr>],
             sorted_flag = False, sorting = False, insertionCounter = MAX_SAFE_INTEGER - 1\<rparr>
     9 False None =
   (\<lparr>obj = 9, index = MIN_SAFE_INTEGER + 3\<rparr>,
    \<lparr>array = [\<lparr>obj = 7, index = MIN_SAFE_INTEGER + 2\<rparr>, \<lparr>obj = 7, index = MIN_SAFE_INTEGER\<rparr>,
              \<lparr>obj = 7, index = MIN_SAFE_INTEGER + 1\<rparr>],
     sorted_flag = False, sorting = False, insertionCounter = MIN_SAFE_INTEGER + 4\<rparr>) \<and>
   map obj (array (snd (wrapOne
      \<lparr>array = [\<lparr>obj = 7 :: int, index = 100\<rparr>, \<lparr>obj = 7, index = 5\<rparr>, \<lparr>obj = 7, index = 50\<rparr>],
       sorted_flag = False, sorting = False, insertionCounter = MAX_SAFE_INTEGER - 1\<rparr>
      9 False None))) = [7, 7, 7] \<and>
   insertionCounter (snd (wrapOne
      \<lparr>array = [\<lparr>obj = 7 :: int, index = 100\<rparr>, \<lparr>obj = 7, index = 5\<rparr>, \<lparr>obj = 7, index = 50\<rparr>],
       sorted_flag = False, sorting = False, insertionCounter = MAX_SAFE_INTEGER - 1\<rparr>
      9 False None)) \<le> MAX_SAFE_INTEGER"
proof -
  let ?s = "\<lparr>array = [\<lparr>obj = 7 :: int, index = 100\<rparr>, \<lparr>obj = 7, index = 5\<rparr>, \<lparr>obj = 7, index = 50\<rparr>],
             sorted_flag = False, sorting = False, insertionCounter = MAX_SAFE_INTEGER - 1\<rparr>"
  have cs: "counter_sound ?s"
    by (simp add: counter_sound_def MIN_SAFE_INTEGER_def MAX_SAFE_INTEGER_def MAX_ARRAY_LENGTH_def)
  have ev: "wrapOne ?s 9 False None =
   (\<lparr>obj = 9, index = MIN_SAFE_INTEGER + 3\<rparr>,
    \<lparr>array = [\<lparr>obj = 7, index = MIN_SAFE_INTEGER + 2\<rparr>, \<lparr>obj = 7, index = MIN_SAFE_INTEGER\<rparr>,
              \<lparr>obj = 7, index = MIN_SAFE_INTEGER + 1\<rparr>],
     sorted_flag = False, sorting = False, insertionCounter = MIN_SAFE_INTEGER + 4\<rparr>)"
    by (simp add: model_eval reduceInsertionOrders_def renumber_step_def upt_rec)
  note inst = renumbering_preserves_order [OF cs, of 9 NumericSort, unfolded Let_def]
  have m: "map obj (array (snd (wrapOne ?s 9 False None))) = map obj (array ?s)"
    using inst by blast
  have c: "insertionCounter (snd (wrapOne ?s 9 False None)) \<le> MAX_SAFE_INTEGER"
    using inst by blast
  show ?thesis using ev m c by simp
qed

subsection \<open>The insertion indices follow the insertions\<close>

text \<open>
  Every call keeps the three properties of a collection: the counter is above the indices
  in use, the flag tells the truth, and the indices order the nodes as their payloads were
  inserted. The history grows by the payloads that \<open>addAll\<close> receives.
\<close>

lemma position_in_append:
  "a \<in> set h \<Longrightarrow> position_in (h @ ext) a = position_in h a"
  by (simp add: position_in_def takeWhile_append1)



lemma tracks_insertion_extend:
  "tracks_insertion h s \<Longrightarrow> tracks_insertion (h @ ext) s"
  unfolding tracks_insertion_def by (auto simp: position_in_append)


















lemma sound_extend: "sound ocf h s \<Longrightarrow> sound ocf (h @ ext) s"
  unfolding sound_def using tracks_insertion_extend by blast









end
